theory Spec2Isabelle
  imports Complex_Main "HOL-Library.AList" "HOL-Library.List_Lexorder" "HOL-Library.Char_ord"
begin

section \<open>Conventions of the embedding\<close>

text \<open>
  The development embeds three modules of the repository: \<^verbatim>\<open>parser.py\<close>
  (\<^verbatim>\<open>DocumentParser\<close>), \<^verbatim>\<open>index_builder.py\<close> (\<^verbatim>\<open>IndexBuilder\<close>),
  \<^verbatim>\<open>index_reader.py\<close> (\<^verbatim>\<open>IndexReader\<close>) and \<^verbatim>\<open>search_engine.py\<close>
  (\<^verbatim>\<open>SearchEngine\<close>).

  \<^item> Python \<^verbatim>\<open>int\<close> is \<^typ>\<open>int\<close>; Python \<^verbatim>\<open>float\<close> is idealised as
    \<^typ>\<open>real\<close> (no rounding, no NaN, no infinities).  \<^verbatim>\<open>math.log\<close> raises
    \<^verbatim>\<open>ValueError\<close> outside its domain and is modelled with that branch.
  \<^item> A Python \<^verbatim>\<open>dict\<close> is an association list in insertion order; storing under a
    key that is present keeps the key's position, as \<^const>\<open>AList.update\<close> does.
  \<^item> An exception that the source does not catch ends the call: the model returns
    \<open>Inl e\<close>.
  \<^item> Code of libraries (Beautiful Soup, NLTK, \<^verbatim>\<open>json\<close>, the order in which CPython
    iterates over a \<^verbatim>\<open>set\<close>) is a parameter, collected in the record \<open>lib\<close>.
  \<^item> Files are ASCII text on a POSIX system: one character is one byte and a written
    line feed is stored as it is.  Progress messages (\<^verbatim>\<open>print\<close>) are left out.
\<close>

datatype error = KeyError | ValueError | TypeError | JSONDecodeError

text \<open>
  The values \<^verbatim>\<open>json.loads\<close> returns and \<^verbatim>\<open>json.dumps\<close> accepts.  A \<open>JObj\<close> holds
  the items of a dictionary, so its keys are distinct.
\<close>

datatype json =
    JNull
  | JBool bool
  | JInt int
  | JFloat real
  | JStr string
  | JArr "json list"
  | JObj "(string \<times> json) list"

record lib =
  tokenize :: "string \<Rightarrow> string list"
  stem :: "string \<Rightarrow> string"
  text_nodes :: "string \<Rightarrow> (string option \<times> string) list"
  tag_texts :: "string \<Rightarrow> string \<Rightarrow> string list"
  json_dumps :: "json \<Rightarrow> string"
  json_loads :: "string \<Rightarrow> json option"
  set_iter :: "int set \<Rightarrow> int list"

text \<open>
  \<^item> \<open>tokenize\<close>: \<^verbatim>\<open>DocumentParser._tokenize\<close>, that is NLTK's \<^verbatim>\<open>word_tokenize\<close> on the
    lower-cased text, filtered by the regular expression for alphanumeric tokens;
  \<^item> \<open>stem\<close>: \<^verbatim>\<open>PorterStemmer.stem\<close>;
  \<^item> \<open>text_nodes html\<close>: \<^verbatim>\<open>soup.find_all(string=True)\<close>, each text node with the name
    of its parent tag (\<open>None\<close> when it has no parent);
  \<^item> \<open>tag_texts html tag\<close>: \<^verbatim>\<open>node.get_text(" ", strip=True)\<close> for every node of
    \<^verbatim>\<open>soup.find_all(tag)\<close>;
  \<^item> \<open>json_dumps\<close>, \<open>json_loads\<close>: \<^verbatim>\<open>json.dumps\<close> and \<^verbatim>\<open>json.loads\<close>
    (\<open>None\<close>: \<^verbatim>\<open>JSONDecodeError\<close>);
  \<^item> \<open>set_iter\<close>: the order in which a \<^verbatim>\<open>for\<close> loop visits a \<^verbatim>\<open>set\<close> of integers.
\<close>

section \<open>parser.py\<close>

record token_stats =
  weighted_tf_s :: real
  raw_tf_s :: int
  positions :: "int list"

text \<open>\<^verbatim>\<open>TokenStats()\<close> with the dataclass defaults.\<close>

definition TokenStats :: token_stats where
  "TokenStats = \<lparr>weighted_tf_s = 0, raw_tf_s = 0, positions = []\<rparr>"

definition IMPORTANT_WEIGHTS :: "(string \<times> real) list" where
  "IMPORTANT_WEIGHTS =
     [(''title'', 4), (''h1'', 3), (''h2'', 5 / 2), (''h3'', 2), (''strong'', 7 / 4), (''b'', 7 / 4)]"

definition BASE_WEIGHT :: real where
  "BASE_WEIGHT = 1"

text \<open>
  The body of the loop of \<^verbatim>\<open>process_text\<close>: \<^verbatim>\<open>stats.setdefault(stem, TokenStats())\<close>
  followed by the three updates of the entry.  The state is the dictionary and the
  running \<^verbatim>\<open>position\<close>.
\<close>

definition record_token :: "real \<Rightarrow> int \<Rightarrow> token_stats \<Rightarrow> token_stats" where
  "record_token boost position entry =
     entry\<lparr>raw_tf_s := raw_tf_s entry + 1,
           weighted_tf_s := weighted_tf_s entry + boost,
           positions := positions entry @ [position]\<rparr>"

definition process_token ::
  "lib \<Rightarrow> real \<Rightarrow> (string \<times> token_stats) list \<times> int \<Rightarrow> string \<Rightarrow>
   (string \<times> token_stats) list \<times> int" where
  "process_token L boost st token =
     (let position = snd st + 1
      in (AList.update_with_aux TokenStats (stem L token) (record_token boost position) (fst st),
          position))"

definition process_text ::
  "lib \<Rightarrow> string \<Rightarrow> real \<Rightarrow> (string \<times> token_stats) list \<times> int \<Rightarrow>
   (string \<times> token_stats) list \<times> int" where
  "process_text L text boost st = foldl (process_token L boost) st (tokenize L text)"

definition parse :: "lib \<Rightarrow> string \<Rightarrow> (string \<times> token_stats) list" where
  "parse L html =
     (let visible = filter (\<lambda>(parent_name, element).
                       parent_name \<notin> {Some ''script'', Some ''style'', Some ''noscript''})
                     (text_nodes L html);
          st1 = foldl (\<lambda>st (parent_name, element). process_text L element BASE_WEIGHT st)
                  ([], 0) visible;
          st2 = foldl (\<lambda>st (tag, weight).
                         foldl (\<lambda>st' node_text. process_text L node_text weight st')
                           st (tag_texts L html tag))
                  st1 IMPORTANT_WEIGHTS
      in fst st2)"

section \<open>index_builder.py\<close>

record posting =
  doc_id :: int
  weighted_tf :: real
  raw_tf :: int
  avg_position :: real

text \<open>\<^verbatim>\<open>IndexBuilder._average\<close>: the loop keeps \<^verbatim>\<open>total\<close> and \<^verbatim>\<open>count\<close>.\<close>

definition average :: "int list \<Rightarrow> real" where
  "average values =
     (let (total, count) = foldl (\<lambda>(total, count) v. (total + real_of_int v, count + 1))
                             (0, 0 :: int) values
      in total / real_of_int (max count 1))"

text \<open>
  \<^verbatim>\<open>math.log\<close> on a float: \<^verbatim>\<open>ValueError\<close> (math domain error) when the argument is
  not positive.
\<close>

definition math_log :: "real \<Rightarrow> error + real" where
  "math_log x = (if 0 < x then Inr (ln x) else Inl ValueError)"

subsection \<open>The corpus on disk\<close>

text \<open>
  What the builder sees of the file system.  A \<open>File\<close> carries the \<^verbatim>\<open>name\<close> and
  \<^verbatim>\<open>suffix\<close> of its \<^verbatim>\<open>Path\<close> and what \<^verbatim>\<open>_load_document\<close> returns for it: the
  dictionary \<^verbatim>\<open>json.load\<close> gives, or \<open>None\<close> after a \<^verbatim>\<open>JSONDecodeError\<close> or an
  \<^verbatim>\<open>OSError\<close>.  A \<open>Dir\<close> carries its name and what \<^verbatim>\<open>iterdir()\<close> yields, in the
  order the operating system lists the children, or \<open>None\<close> when listing raises
  \<^verbatim>\<open>OSError\<close> (\<^verbatim>\<open>PermissionError\<close> is one).
\<close>

datatype fs_node =
    is_file: File (name: string) (suffix: string) (load_document: "(string \<rightharpoonup> string) option")
  | is_dir: Dir (name: string) (iterdir: "fs_node list option")

text \<open>\<^verbatim>\<open>str.lower\<close> on ASCII text.\<close>

definition lower_char :: "char \<Rightarrow> char" where
  "lower_char c =
     (if CHR ''A'' \<le> c \<and> c \<le> CHR ''Z'' then char_of (of_char c + (32 :: nat)) else c)"

definition lower :: "string \<Rightarrow> string" where
  "lower s = map lower_char s"

text \<open>The last loop of \<^verbatim>\<open>_iter_corpus_files\<close>, for one folder.\<close>

definition folder_json_files :: "fs_node \<Rightarrow> fs_node list" where
  "folder_json_files folder =
     (case iterdir folder of
        None \<Rightarrow> []
      | Some children \<Rightarrow>
          filter (\<lambda>filename. is_file filename \<and> lower (suffix filename) = ''.json'') children)"

text \<open>
  \<^verbatim>\<open>IndexBuilder._iter_corpus_files\<close>, the generator run to its end.  The argument is
  \<^verbatim>\<open>self.corpus_root.iterdir()\<close>.  \<^verbatim>\<open>list.sort\<close> is stable, as \<^const>\<open>sort_key\<close> is.
  The loop that only counts the files for a message is left out.
\<close>

definition iter_corpus_files :: "fs_node list option \<Rightarrow> fs_node list" where
  "iter_corpus_files corpus_root =
     (case corpus_root of
        None \<Rightarrow> []
      | Some items \<Rightarrow>
          (let domain_folders = filter is_dir items;
               domain_folders = sort_key name domain_folders;
               selected_folders = domain_folders
           in concat (map folder_json_files selected_folders)))"

subsection \<open>The build loop\<close>

text \<open>
  The fields of \<^verbatim>\<open>IndexBuilder\<close> that \<^verbatim>\<open>build\<close> changes, and the local variables of
  its loop (\<open>next_doc_id\<close> is the local \<^verbatim>\<open>doc_id\<close>).
\<close>

record builder =
  doc_lookup :: "(int \<times> string) list"
  doc_lengths :: "(int \<times> real) list"
  doc_seen_urls :: "(string \<times> int) list"
  postings_acc :: "(string \<times> posting list) list"
  next_doc_id :: int
  files_processed :: int
  files_skipped :: int

definition new_builder :: builder where
  "new_builder =
     \<lparr>doc_lookup = [], doc_lengths = [], doc_seen_urls = [], postings_acc = [],
      next_doc_id = 0, files_processed = 0, files_skipped = 0\<rparr>"

definition Posting :: "int \<Rightarrow> token_stats \<Rightarrow> posting" where
  "Posting d stats =
     \<lparr>doc_id = d, weighted_tf = weighted_tf_s stats, raw_tf = raw_tf_s stats,
      avg_position = average (positions stats)\<rparr>"

text \<open>
  The loop over \<^verbatim>\<open>token_stats.items()\<close> (lines 65 to 76): the state is
  \<^verbatim>\<open>self._postings\<close>, a \<^verbatim>\<open>defaultdict(list)\<close>, and the local \<^verbatim>\<open>length\<close>.
\<close>

fun index_terms ::
  "int \<Rightarrow> (string \<times> token_stats) list \<Rightarrow> (string \<times> posting list) list \<times> real \<Rightarrow>
   error + (string \<times> posting list) list \<times> real" where
  "index_terms d [] st = Inr st"
| "index_terms d ((t, stats) # rest) (acc, len) =
     (let acc' = AList.update_with_aux [] t (\<lambda>ps. ps @ [Posting d stats]) acc
      in case math_log (1 + weighted_tf_s stats) of
           Inl e \<Rightarrow> Inl e
         | Inr l \<Rightarrow> (let term_tf = 1 + l in index_terms d rest (acc', len + term_tf * term_tf)))"

text \<open>The body of the loop over the corpus files (lines 45 to 79).\<close>

definition build_file :: "lib \<Rightarrow> builder \<Rightarrow> fs_node \<Rightarrow> error + builder" where
  "build_file L b0 file_path =
     (let b = b0\<lparr>files_processed := files_processed b0 + 1\<rparr>
      in case load_document file_path of
           None \<Rightarrow> Inr (b\<lparr>files_skipped := files_skipped b + 1\<rparr>)
         | Some payload \<Rightarrow>
             (case payload ''url'' of
                None \<Rightarrow> Inl KeyError
              | Some url \<Rightarrow>
                  (let html = (case payload ''content'' of None \<Rightarrow> [] | Some c \<Rightarrow> c)
                   in if url \<in> set (map fst (doc_seen_urls b))
                      then Inr (b\<lparr>files_skipped := files_skipped b + 1\<rparr>)
                      else
                        (let d = next_doc_id b;
                             b1 = b\<lparr>doc_lookup := AList.update d url (doc_lookup b),
                                    doc_seen_urls := AList.update url d (doc_seen_urls b)\<rparr>;
                             token_stats = parse L html
                         in case index_terms d token_stats (postings_acc b1, 0) of
                              Inl e \<Rightarrow> Inl e
                            | Inr (acc, len) \<Rightarrow>
                                Inr (b1\<lparr>postings_acc := acc,
                                        doc_lengths :=
                                          AList.update d (max len (1 / 10 ^ 9)) (doc_lengths b1),
                                        next_doc_id := d + 1\<rparr>)))))"

fun build_files :: "lib \<Rightarrow> builder \<Rightarrow> fs_node list \<Rightarrow> error + builder" where
  "build_files L b [] = Inr b"
| "build_files L b (file_path # rest) =
     (case build_file L b file_path of
        Inl e \<Rightarrow> Inl e
      | Inr b' \<Rightarrow> build_files L b' rest)"

subsection \<open>Writing the index\<close>

record lexicon_entry =
  term_e :: string
  doc_freq :: int
  offset :: int
  length_e :: int

text \<open>
  The five files of the index directory.  \<^verbatim>\<open>lexicon.jsonl\<close> is kept as the list of
  its records, one for each line, and the two JSON objects as their items, with the
  keys as the integers they print; \<^verbatim>\<open>postings.jsonl\<close> is kept as its text.  Of
  \<^verbatim>\<open>stats.json\<close> the two counts are kept, not the sizes in bytes.
\<close>

record index_files =
  lexicon_jsonl :: "lexicon_entry list"
  postings_jsonl :: string
  doc_lookup_json :: "(int \<times> string) list"
  doc_lengths_json :: "(int \<times> real) list"
  num_documents :: int
  num_unique_terms :: int

text \<open>The list \<^verbatim>\<open>postings_data\<close> of dictionaries that \<^verbatim>\<open>_write_index\<close> serialises.\<close>

definition posting_data :: "posting \<Rightarrow> json" where
  "posting_data p =
     JObj [(''doc_id'', JInt (doc_id p)), (''weighted_tf'', JFloat (weighted_tf p)),
           (''raw_tf'', JInt (raw_tf p)), (''avg_position'', JFloat (avg_position p))]"

definition postings_data :: "posting list \<Rightarrow> json" where
  "postings_data ps = JArr (map posting_data ps)"

text \<open>\<^verbatim>\<open>self._postings[term]\<close> on the \<^verbatim>\<open>defaultdict(list)\<close>.\<close>

definition postings_of :: "(string \<times> posting list) list \<Rightarrow> string \<Rightarrow> posting list" where
  "postings_of acc t = (case map_of acc t of None \<Rightarrow> [] | Some ps \<Rightarrow> ps)"

text \<open>
  The loop of \<^verbatim>\<open>_write_index\<close> over the sorted terms; the state is the two files
  written so far.  \<^verbatim>\<open>tell()\<close> is the number of characters written.
\<close>

fun write_terms ::
  "lib \<Rightarrow> (string \<times> posting list) list \<Rightarrow> string list \<Rightarrow> lexicon_entry list \<times> string \<Rightarrow>
   lexicon_entry list \<times> string" where
  "write_terms L acc [] out = out"
| "write_terms L acc (t # ts) (lexicon_file, postings_file) =
     (let postings = sort_key doc_id (postings_of acc t);
          df = int (length postings);
          postings_json = json_dumps L (postings_data postings);
          off = int (length postings_file);
          postings_file' = postings_file @ postings_json @ [CHR 10];
          len = int (length postings_file') - off;
          entry = \<lparr>term_e = t, doc_freq = df, offset = off, length_e = len\<rparr>
      in write_terms L acc ts (lexicon_file @ [entry], postings_file'))"

definition write_index :: "lib \<Rightarrow> (string \<times> posting list) list \<Rightarrow> lexicon_entry list \<times> string" where
  "write_index L acc = write_terms L acc (sort (map fst acc)) ([], [])"

text \<open>\<^verbatim>\<open>_write_index\<close> followed by \<^verbatim>\<open>_write_metadata\<close>.\<close>

definition write_files :: "lib \<Rightarrow> builder \<Rightarrow> index_files" where
  "write_files L b =
     (let (lexicon_file, postings_file) = write_index L (postings_acc b)
      in \<lparr>lexicon_jsonl = lexicon_file,
          postings_jsonl = postings_file,
          doc_lookup_json = doc_lookup b,
          doc_lengths_json = doc_lengths b,
          num_documents = int (length (doc_lookup b)),
          num_unique_terms = int (length lexicon_file)\<rparr>)"

text \<open>\<^verbatim>\<open>IndexBuilder.build\<close> on a new builder: the builder at the end and the files.\<close>

definition build :: "lib \<Rightarrow> fs_node list option \<Rightarrow> error + builder \<times> index_files" where
  "build L corpus_root =
     (case build_files L new_builder (iter_corpus_files corpus_root) of
        Inl e \<Rightarrow> Inl e
      | Inr b \<Rightarrow> Inr (b, write_files L b))"


section \<open>index_reader.py\<close>

text \<open>
  The reader keeps what it has loaded in caches.  The files do not change while a
  reader is open, so the model reads them on every call and has no cache state.
\<close>

text \<open>An exception ends a sequence of steps: the bind of the error monad.\<close>

definition bind_r :: "error + 'a \<Rightarrow> ('a \<Rightarrow> error + 'b) \<Rightarrow> error + 'b" where
  "bind_r x f = (case x of Inl e \<Rightarrow> Inl e | Inr a \<Rightarrow> f a)"

fun map_r :: "('a \<Rightarrow> error + 'b) \<Rightarrow> 'a list \<Rightarrow> error + 'b list" where
  "map_r f [] = Inr []"
| "map_r f (x # xs) = bind_r (f x) (\<lambda>y. bind_r (map_r f xs) (\<lambda>ys. Inr (y # ys)))"

definition load_lexicon :: "index_files \<Rightarrow> string \<rightharpoonup> lexicon_entry" where
  "load_lexicon idx =
     foldl (\<lambda>lexicon entry. lexicon(term_e entry \<mapsto> entry)) Map.empty (lexicon_jsonl idx)"

definition load_doc_lookup :: "index_files \<Rightarrow> int \<rightharpoonup> string" where
  "load_doc_lookup idx = foldl (\<lambda>m (d, u). m(d \<mapsto> u)) Map.empty (doc_lookup_json idx)"

definition load_doc_lengths :: "index_files \<Rightarrow> int \<rightharpoonup> real" where
  "load_doc_lengths idx = foldl (\<lambda>m (d, l). m(d \<mapsto> l)) Map.empty (doc_lengths_json idx)"

definition get_num_documents :: "index_files \<Rightarrow> int" where
  "get_num_documents idx = num_documents idx"

text \<open>
  \<^verbatim>\<open>f.readline()\<close> on a file opened in text mode with the default \<^verbatim>\<open>newline\<close>: the
  line ends after the first line feed or carriage return, which is returned as a line
  feed.
\<close>

fun readline :: "string \<Rightarrow> string" where
  "readline [] = []"
| "readline (c # cs) = (if c = CHR 10 \<or> c = CHR 13 then [CHR 10] else c # readline cs)"

text \<open>\<^verbatim>\<open>postings_json.rstrip('\n\r')\<close>.\<close>

definition rstrip :: "string \<Rightarrow> string" where
  "rstrip s = rev (dropWhile (\<lambda>c. c = CHR 10 \<or> c = CHR 13) (rev s))"

text \<open>
  \<^verbatim>\<open>posting["key"]\<close> on a value that \<^verbatim>\<open>json.loads\<close> returned: a dictionary raises
  \<^verbatim>\<open>KeyError\<close> for a key it does not have, every other value raises \<^verbatim>\<open>TypeError\<close>.
\<close>

fun subscript :: "json \<Rightarrow> string \<Rightarrow> error + json" where
  "subscript (JObj items) k = (case map_of items k of None \<Rightarrow> Inl KeyError | Some v \<Rightarrow> Inr v)"
| "subscript j k = Inl TypeError"

text \<open>
  The fields of \<^verbatim>\<open>Posting\<close> are typed here as the dataclass annotates them.  Python
  would store a value of any type; in the model a value of another type is a
  \<^verbatim>\<open>TypeError\<close>.  An integer is accepted where a float is annotated.
\<close>

fun as_int :: "json \<Rightarrow> error + int" where
  "as_int (JInt i) = Inr i"
| "as_int j = Inl TypeError"

fun as_float :: "json \<Rightarrow> error + real" where
  "as_float (JFloat r) = Inr r"
| "as_float (JInt i) = Inr (real_of_int i)"
| "as_float j = Inl TypeError"

definition read_posting :: "json \<Rightarrow> error + posting" where
  "read_posting j =
     bind_r (bind_r (subscript j ''doc_id'') as_int) (\<lambda>d.
     bind_r (bind_r (subscript j ''weighted_tf'') as_float) (\<lambda>w.
     bind_r (bind_r (subscript j ''raw_tf'') as_int) (\<lambda>r.
     bind_r (bind_r (subscript j ''avg_position'') as_float) (\<lambda>a.
       Inr \<lparr>doc_id = d, weighted_tf = w, raw_tf = r, avg_position = a\<rparr>))))"

text \<open>
  What \<^verbatim>\<open>for posting in postings_data\<close> visits in \<^verbatim>\<open>get_postings\<close>, where
  \<^verbatim>\<open>postings_data\<close> is the loaded value: the elements of a list, the keys of a
  dictionary, the characters of a string; any other value is not iterable.
\<close>

fun iter_json :: "json \<Rightarrow> error + json list" where
  "iter_json (JArr xs) = Inr xs"
| "iter_json (JObj items) = Inr (map (\<lambda>kv. JStr (fst kv)) items)"
| "iter_json (JStr s) = Inr (map (\<lambda>c. JStr [c]) s)"
| "iter_json j = Inl TypeError"

definition read_postings :: "json \<Rightarrow> error + posting list" where
  "read_postings loaded = bind_r (iter_json loaded) (map_r read_posting)"

text \<open>\<^verbatim>\<open>IndexReader.get_postings\<close>.  \<^verbatim>\<open>seek\<close> raises \<^verbatim>\<open>ValueError\<close> on a negative offset.\<close>

definition get_postings :: "lib \<Rightarrow> index_files \<Rightarrow> string \<Rightarrow> error + posting list" where
  "get_postings L idx t =
     (case load_lexicon idx t of
        None \<Rightarrow> Inr []
      | Some entry \<Rightarrow>
          if offset entry < 0 then Inl ValueError
          else
            (let postings_json = readline (drop (nat (offset entry)) (postings_jsonl idx));
                 postings_json = rstrip postings_json
             in case json_loads L postings_json of
                  None \<Rightarrow> Inl JSONDecodeError
                | Some loaded \<Rightarrow> read_postings loaded))"

definition get_doc_freq :: "index_files \<Rightarrow> string \<Rightarrow> int" where
  "get_doc_freq idx t = (case load_lexicon idx t of None \<Rightarrow> 0 | Some entry \<Rightarrow> doc_freq entry)"

definition get_url :: "index_files \<Rightarrow> int \<Rightarrow> string option" where
  "get_url idx d = load_doc_lookup idx d"

definition get_doc_length :: "index_files \<Rightarrow> int \<Rightarrow> real" where
  "get_doc_length idx d = (case load_doc_lengths idx d of None \<Rightarrow> 1 | Some l \<Rightarrow> l)"

text \<open>
  \<^verbatim>\<open>IndexReader.compute_idf\<close>.  \<^verbatim>\<open>num_docs / doc_freq\<close> is the true division of two
  integers; \<^verbatim>\<open>doc_freq\<close> is not zero there.
\<close>

definition compute_idf :: "index_files \<Rightarrow> string \<Rightarrow> error + real" where
  "compute_idf idx t =
     (let df = get_doc_freq idx t
      in if df = 0 then Inr 0
         else (let num_docs = get_num_documents idx
               in math_log (real_of_int num_docs / real_of_int df)))"


section \<open>search_engine.py\<close>

record search_result =
  doc_id_r :: int
  url :: string
  score :: real

definition parse_query :: "lib \<Rightarrow> string \<Rightarrow> string list" where
  "parse_query L query = map (stem L) (tokenize L query)"

text \<open>
  The first loop of \<^verbatim>\<open>search\<close> (lines 48 to 54); the state is the dictionary
  \<^verbatim>\<open>term_postings\<close>.  \<open>Inr None\<close> is the early \<^verbatim>\<open>return []\<close>.
\<close>

fun fetch_postings ::
  "lib \<Rightarrow> index_files \<Rightarrow> string list \<Rightarrow> (string \<times> posting list) list \<Rightarrow>
   error + (string \<times> posting list) list option" where
  "fetch_postings L idx [] term_postings = Inr (Some term_postings)"
| "fetch_postings L idx (t # ts) term_postings =
     (case get_postings L idx t of
        Inl e \<Rightarrow> Inl e
      | Inr postings \<Rightarrow>
          if postings = [] then Inr None
          else fetch_postings L idx ts (AList.update t postings term_postings))"

text \<open>The set comprehension \<^verbatim>\<open>{posting.doc_id for posting in postings}\<close>.\<close>

definition posting_docs :: "posting list \<Rightarrow> int set" where
  "posting_docs postings = set (map doc_id postings)"

text \<open>
  \<^verbatim>\<open>d[key]\<close> on a plain dictionary: \<^verbatim>\<open>KeyError\<close> for a key it does not have.
\<close>

definition getitem :: "('k \<times> 'v) list \<Rightarrow> 'k \<Rightarrow> error + 'v" where
  "getitem d k = (case map_of d k of None \<Rightarrow> Inl KeyError | Some v \<Rightarrow> Inr v)"

text \<open>The loop of \<^verbatim>\<open>_boolean_and\<close> over \<^verbatim>\<open>term_list[1:]\<close>.\<close>

fun intersect_terms ::
  "(string \<times> posting list) list \<Rightarrow> string list \<Rightarrow> int set \<Rightarrow> error + int set" where
  "intersect_terms term_postings [] candidate_docs = Inr candidate_docs"
| "intersect_terms term_postings (t # ts) candidate_docs =
     bind_r (getitem term_postings t) (\<lambda>postings.
       intersect_terms term_postings ts (candidate_docs \<inter> posting_docs postings))"

definition boolean_and :: "(string \<times> posting list) list \<Rightarrow> error + int set" where
  "boolean_and term_postings =
     (case map fst term_postings of
        [] \<Rightarrow> Inr {}
      | first_term # rest \<Rightarrow>
          bind_r (getitem term_postings first_term) (\<lambda>postings.
            intersect_terms term_postings rest (posting_docs postings)))"

text \<open>The dictionary comprehension \<^verbatim>\<open>{posting.doc_id: posting for posting in postings}\<close>.\<close>

definition posting_map :: "posting list \<Rightarrow> int \<rightharpoonup> posting" where
  "posting_map postings = foldl (\<lambda>m posting. m(doc_id posting \<mapsto> posting)) Map.empty postings"

text \<open>The loop that fills \<^verbatim>\<open>term_idfs\<close> (lines 110 to 112).\<close>

fun compute_idfs ::
  "index_files \<Rightarrow> string list \<Rightarrow> (string \<rightharpoonup> real) \<Rightarrow> error + (string \<rightharpoonup> real)" where
  "compute_idfs idx [] term_idfs = Inr term_idfs"
| "compute_idfs idx (t # ts) term_idfs =
     bind_r (compute_idf idx t) (\<lambda>v. compute_idfs idx ts (term_idfs(t \<mapsto> v)))"

text \<open>
  The loop over \<^verbatim>\<open>query_terms\<close> for one candidate document (lines 119 to 138); the
  state is \<^verbatim>\<open>score\<close>.  \<^verbatim>\<open>term_posting_maps[term]\<close> is the posting map of
  \<^verbatim>\<open>term_postings[term]\<close>.
\<close>

fun score_terms ::
  "index_files \<Rightarrow> (string \<times> posting list) list \<Rightarrow> (string \<rightharpoonup> real) \<Rightarrow> int \<Rightarrow> string list \<Rightarrow>
   real \<Rightarrow> error + real" where
  "score_terms idx term_postings term_idfs d [] sc = Inr sc"
| "score_terms idx term_postings term_idfs d (t # ts) sc =
     bind_r (getitem term_postings t) (\<lambda>postings.
       case posting_map postings d of
         None \<Rightarrow> score_terms idx term_postings term_idfs d ts sc
       | Some posting \<Rightarrow>
           (let doc_length = get_doc_length idx d;
                normalized_tf =
                  (if 0 < doc_length then weighted_tf posting / sqrt doc_length
                   else weighted_tf posting)
            in case term_idfs t of
                 None \<Rightarrow> Inl KeyError
               | Some idf \<Rightarrow>
                   score_terms idx term_postings term_idfs d ts (sc + normalized_tf * idf)))"

text \<open>The loop over \<^verbatim>\<open>candidate_docs\<close> (lines 115 to 143); the state is \<^verbatim>\<open>results\<close>.\<close>

fun score_candidates ::
  "index_files \<Rightarrow> (string \<times> posting list) list \<Rightarrow> (string \<rightharpoonup> real) \<Rightarrow> string list \<Rightarrow>
   int list \<Rightarrow> search_result list \<Rightarrow> error + search_result list" where
  "score_candidates idx term_postings term_idfs query_terms [] results = Inr results"
| "score_candidates idx term_postings term_idfs query_terms (d # ds) results =
     bind_r (score_terms idx term_postings term_idfs d query_terms 0) (\<lambda>sc.
       case get_url idx d of
         None \<Rightarrow> score_candidates idx term_postings term_idfs query_terms ds results
       | Some u \<Rightarrow>
           if u = [] then score_candidates idx term_postings term_idfs query_terms ds results
           else score_candidates idx term_postings term_idfs query_terms ds
                  (results @ [\<lparr>doc_id_r = d, url = u, score = sc\<rparr>]))"

definition score_documents ::
  "lib \<Rightarrow> index_files \<Rightarrow> int set \<Rightarrow> (string \<times> posting list) list \<Rightarrow> string list \<Rightarrow>
   error + search_result list" where
  "score_documents L idx candidate_docs term_postings query_terms =
     bind_r (compute_idfs idx query_terms Map.empty) (\<lambda>term_idfs.
       score_candidates idx term_postings term_idfs query_terms (set_iter L candidate_docs) [])"

text \<open>
  \<^verbatim>\<open>scored_results.sort(key=lambda r: r.score, reverse=True)\<close>: a stable sort that
  keeps results of equal score in their order.
\<close>

definition sort_by_score :: "search_result list \<Rightarrow> search_result list" where
  "sort_by_score results = rev (sort_key score (rev results))"

text \<open>The slice \<^verbatim>\<open>xs[:k]\<close>: a negative \<^verbatim>\<open>k\<close> counts from the end of the list.\<close>

definition slice_to :: "int \<Rightarrow> 'a list \<Rightarrow> 'a list" where
  "slice_to k xs = (if 0 \<le> k then take (nat k) xs else take (length xs - nat (- k)) xs)"

definition search :: "lib \<Rightarrow> index_files \<Rightarrow> string \<Rightarrow> int \<Rightarrow> error + search_result list" where
  "search L idx query top_k =
     (let query_terms = parse_query L query
      in if query_terms = [] then Inr []
         else
           bind_r (fetch_postings L idx query_terms []) (\<lambda>fetched.
             case fetched of
               None \<Rightarrow> Inr []
             | Some term_postings \<Rightarrow>
                 bind_r (boolean_and term_postings) (\<lambda>candidate_docs.
                   if candidate_docs = {} then Inr []
                   else
                     bind_r (score_documents L idx candidate_docs term_postings query_terms)
                       (\<lambda>scored_results. Inr (slice_to top_k (sort_by_score scored_results))))))"


section \<open>Notions used to state the properties\<close>

subsection \<open>The builder\<close>

text \<open>
  The documents of the corpus in the order the builder visits them: the files that
  load and have a \<^verbatim>\<open>url\<close>, each as its URL and its \<^verbatim>\<open>content\<close> (the empty string
  when the payload has none).
\<close>

definition payload_doc :: "(string \<rightharpoonup> string) \<Rightarrow> (string \<times> string) list" where
  "payload_doc payload =
     (case payload ''url'' of
        None \<Rightarrow> []
      | Some u \<Rightarrow> [(u, case payload ''content'' of None \<Rightarrow> [] | Some c \<Rightarrow> c)])"

definition loaded_docs :: "fs_node list \<Rightarrow> (string \<times> string) list" where
  "loaded_docs files =
     concat (map (\<lambda>f. case load_document f of None \<Rightarrow> [] | Some payload \<Rightarrow> payload_doc payload)
                 files)"

text \<open>
  First occurrence wins, in the spec's words: a document is kept when no earlier
  document has its URL.
\<close>

definition first_by_url :: "(string \<times> string) list \<Rightarrow> (string \<times> string) list" where
  "first_by_url docs =
     map (\<lambda>i. docs ! i)
       (filter (\<lambda>i. fst (docs ! i) \<notin> fst ` set (take i docs)) [0..<length docs])"

text \<open>
  Every file that loads has the key \<^verbatim>\<open>url\<close>; \<^verbatim>\<open>payload["url"]\<close> raises
  \<^verbatim>\<open>KeyError\<close> otherwise and the build ends.
\<close>

definition urls_present :: "fs_node list \<Rightarrow> bool" where
  "urls_present files =
     list_all (\<lambda>f. case load_document f of None \<Rightarrow> True | Some payload \<Rightarrow> payload ''url'' \<noteq> None)
       files"

text \<open>The document ids \<open>0, 1, \<dots>\<close> of a list of documents.\<close>

definition doc_ids :: "'a list \<Rightarrow> int list" where
  "doc_ids docs = map int [0..<length docs]"

text \<open>
  The document length in the spec's words: the sum over the document's terms of
  \<open>(1 + ln (1 + weighted_tf))\<^sup>2\<close>, floored at \<open>10\<^sup>-\<^sup>9\<close>.
\<close>

definition doc_length_of :: "(string \<times> token_stats) list \<Rightarrow> real" where
  "doc_length_of stats =
     max (\<Sum>(t, s)\<leftarrow>stats. (1 + ln (1 + weighted_tf_s s))\<^sup>2) (1 / 10 ^ 9)"

text \<open>What the parser returns: one entry for each term, with at least one occurrence.\<close>

definition well_parsed :: "(string \<times> token_stats) list \<Rightarrow> bool" where
  "well_parsed stats =
     (distinct (map fst stats) \<and>
      list_all (\<lambda>(t, s). 1 \<le> weighted_tf_s s \<and> 1 \<le> raw_tf_s s \<and>
                         int (length (positions s)) = raw_tf_s s) stats)"

text \<open>
  The postings of a term over a list of documents: one posting for each document
  whose parse has the term, in the order of the documents.
\<close>

definition doc_postings :: "lib \<Rightarrow> (string \<times> string) list \<Rightarrow> string \<Rightarrow> posting list" where
  "doc_postings L docs t =
     concat (map (\<lambda>(i, d). case map_of (parse L (snd d)) t of
                               None \<Rightarrow> []
                             | Some s \<Rightarrow> [Posting (int i) s])
                 (enumerate 0 docs))"

text \<open>The builder holds the index of the documents \<open>docs\<close>: the invariant of the build loop.\<close>

definition built :: "lib \<Rightarrow> (string \<times> string) list \<Rightarrow> builder \<Rightarrow> bool" where
  "built L docs b =
     (doc_lookup b = zip (doc_ids docs) (map fst docs)
      \<and> doc_seen_urls b = zip (map fst docs) (doc_ids docs)
      \<and> doc_lengths b = zip (doc_ids docs) (map (\<lambda>d. doc_length_of (parse L (snd d))) docs)
      \<and> next_doc_id b = int (length docs)
      \<and> distinct (map fst (postings_acc b))
      \<and> set (map fst (postings_acc b)) = {t. doc_postings L docs t \<noteq> []}
      \<and> (\<forall>t. postings_of (postings_acc b) t = doc_postings L docs t))"

subsection \<open>The postings file\<close>

text \<open>
  What the round trip needs of \<^verbatim>\<open>json.dumps\<close> and \<^verbatim>\<open>json.loads\<close> on a value:
  loading the text gives the value back, and the text has no raw line feed or carriage
  return (\<^verbatim>\<open>json.dumps\<close> without \<^verbatim>\<open>indent\<close> writes one line and escapes control
  characters in strings).
\<close>

definition codec_ok :: "lib \<Rightarrow> json \<Rightarrow> bool" where
  "codec_ok L j =
     (json_loads L (json_dumps L j) = Some j
      \<and> CHR 10 \<notin> set (json_dumps L j) \<and> CHR 13 \<notin> set (json_dumps L j))"

definition sorted_postings :: "(string \<times> posting list) list \<Rightarrow> string \<Rightarrow> posting list" where
  "sorted_postings acc t = sort_key doc_id (postings_of acc t)"

text \<open>The line \<^verbatim>\<open>_write_index\<close> writes for a term.\<close>

definition block :: "lib \<Rightarrow> (string \<times> posting list) list \<Rightarrow> string \<Rightarrow> string" where
  "block L acc t = json_dumps L (postings_data (sorted_postings acc t)) @ [CHR 10]"

text \<open>
  Reading a block in the spec's words: the \<open>length_e\<close> characters of the postings file
  from \<open>offset\<close> on, deserialised.  (\<^verbatim>\<open>get_postings\<close> reads a line instead.)
\<close>

definition read_block :: "lib \<Rightarrow> index_files \<Rightarrow> lexicon_entry \<Rightarrow> error + posting list" where
  "read_block L idx e =
     (case json_loads L (rstrip (take (nat (length_e e)) (drop (nat (offset e)) (postings_jsonl idx)))) of
        None \<Rightarrow> Inl JSONDecodeError
      | Some loaded \<Rightarrow> read_postings loaded)"

subsection \<open>The search\<close>

text \<open>The set of document ids in a term's postings list.\<close>

definition term_docs :: "lib \<Rightarrow> index_files \<Rightarrow> string \<Rightarrow> int set" where
  "term_docs L idx t = (case get_postings L idx t of Inl e \<Rightarrow> {} | Inr ps \<Rightarrow> posting_docs ps)"

text \<open>The intersection over the query terms.\<close>

definition candidates :: "lib \<Rightarrow> index_files \<Rightarrow> string list \<Rightarrow> int set" where
  "candidates L idx qs = (\<Inter>t\<in>set qs. term_docs L idx t)"

text \<open>The document has a URL in \<^verbatim>\<open>doc_lookup\<close> that is not the empty string.\<close>

definition has_url :: "index_files \<Rightarrow> int \<Rightarrow> bool" where
  "has_url idx d = (case get_url idx d of None \<Rightarrow> False | Some u \<Rightarrow> u \<noteq> [])"

text \<open>
  The tf-idf contribution of one occurrence of a query term to the score of a
  document: the normalised term frequency times the inverse document frequency, and
  0 when the term's postings have no entry for the document.
\<close>

definition tf_idf :: "lib \<Rightarrow> index_files \<Rightarrow> string \<Rightarrow> int \<Rightarrow> real" where
  "tf_idf L idx t d =
     (case get_postings L idx t of
        Inl e \<Rightarrow> 0
      | Inr ps \<Rightarrow>
          (case posting_map ps d of
             None \<Rightarrow> 0
           | Some p \<Rightarrow>
               (if 0 < get_doc_length idx d then weighted_tf p / sqrt (get_doc_length idx d)
                else weighted_tf p)
               * (case compute_idf idx t of Inl e \<Rightarrow> 0 | Inr v \<Rightarrow> v)))"

text \<open>The result for a document, and the results before the cut to \<^verbatim>\<open>top_k\<close>.\<close>

definition result_for :: "lib \<Rightarrow> index_files \<Rightarrow> string list \<Rightarrow> int \<Rightarrow> search_result" where
  "result_for L idx qs d =
     \<lparr>doc_id_r = d, url = (case get_url idx d of None \<Rightarrow> [] | Some u \<Rightarrow> u),
      score = sum_list (map (\<lambda>t. tf_idf L idx t d) qs)\<rparr>"

definition ranked :: "lib \<Rightarrow> index_files \<Rightarrow> string list \<Rightarrow> search_result list" where
  "ranked L idx qs =
     sort_by_score (map (result_for L idx qs)
       (filter (has_url idx) (set_iter L (candidates L idx qs))))"

text \<open>A loop over a finite set visits every element of the set, once.\<close>

definition iterates :: "lib \<Rightarrow> bool" where
  "iterates L = (\<forall>S. finite S \<longrightarrow> set (set_iter L S) = S \<and> distinct (set_iter L S))"



section \<open>A small instance\<close>

text \<open>
  A corpus and an index small enough to run the model on, used where a property is
  shown at a concrete input.  The library parameters of the instance: tokens are the
  words between spaces, stemming changes nothing, a document is one text node without
  tags, a set is visited in ascending order, and the serialiser knows the three
  blocks of this corpus, for which it writes a short text.
\<close>

fun split_words :: "string \<Rightarrow> string \<Rightarrow> string list" where
  "split_words w [] = (if w = [] then [] else [w])"
| "split_words w (c # cs) =
     (if c = CHR '' '' then (if w = [] then split_words [] cs else w # split_words [] cs)
      else split_words (w @ [c]) cs)"

definition cat_postings :: "posting list" where
  "cat_postings =
     [\<lparr>doc_id = 0, weighted_tf = 1, raw_tf = 1, avg_position = 1\<rparr>,
      \<lparr>doc_id = 1, weighted_tf = 1, raw_tf = 1, avg_position = 1\<rparr>]"

definition dog_postings :: "posting list" where
  "dog_postings = [\<lparr>doc_id = 0, weighted_tf = 2, raw_tf = 2, avg_position = 5 / 2\<rparr>]"

definition bird_postings :: "posting list" where
  "bird_postings =
     [\<lparr>doc_id = 1, weighted_tf = 2, raw_tf = 2, avg_position = 5 / 2\<rparr>,
      \<lparr>doc_id = 2, weighted_tf = 1, raw_tf = 1, avg_position = 1\<rparr>]"

definition demo_dumps :: "json \<Rightarrow> string" where
  "demo_dumps j =
     (if j = postings_data cat_postings then ''[cat]''
      else if j = postings_data dog_postings then ''[dog]''
      else if j = postings_data bird_postings then ''[bird]''
      else ''null'')"

definition demo_loads :: "string \<Rightarrow> json option" where
  "demo_loads s =
     (if s = ''[cat]'' then Some (postings_data cat_postings)
      else if s = ''[dog]'' then Some (postings_data dog_postings)
      else if s = ''[bird]'' then Some (postings_data bird_postings)
      else if s = ''null'' then Some JNull
      else None)"

definition demo_lib :: lib where
  "demo_lib =
     \<lparr>tokenize = split_words [], stem = (\<lambda>w. w),
      text_nodes = (\<lambda>html. [(None, html)]), tag_texts = (\<lambda>html tag. []),
      json_dumps = demo_dumps, json_loads = demo_loads,
      set_iter = sorted_list_of_set\<rparr>"

text \<open>
  The same library with a stemmer that maps the plural \<open>dogs\<close> to \<open>dog\<close>, so that two
  different tokens of a query share a stem.
\<close>

definition demo_lib_stemming :: lib where
  "demo_lib_stemming = demo_lib\<lparr>stem := (\<lambda>w. if w = ''dogs'' then ''dog'' else w)\<rparr>"

text \<open>
  Six files in one folder: three documents, a second file with the URL of the first,
  a file that does not load, and a file that is not a JSON file.
\<close>

definition file_a :: fs_node where
  "file_a = File ''a.json'' ''.json'' (Some [''url'' \<mapsto> ''u0'', ''content'' \<mapsto> ''cat dog dog''])"

definition file_b :: fs_node where
  "file_b = File ''b.json'' ''.json'' (Some [''url'' \<mapsto> ''u1'', ''content'' \<mapsto> ''cat bird bird''])"

definition file_c :: fs_node where
  "file_c = File ''c.json'' ''.json'' (Some [''url'' \<mapsto> ''u0'', ''content'' \<mapsto> ''zebra''])"

definition file_d :: fs_node where
  "file_d = File ''d.json'' ''.JSON'' (Some [''url'' \<mapsto> ''u2'', ''content'' \<mapsto> ''bird''])"

definition file_e :: fs_node where
  "file_e = File ''e.json'' ''.json'' None"

definition file_f :: fs_node where
  "file_f = File ''notes.txt'' ''.txt'' None"

definition demo_corpus :: "fs_node list option" where
  "demo_corpus = Some [Dir ''www'' (Some [file_a, file_b, file_c, file_f, file_d, file_e])]"

text \<open>The same folder, listed by the operating system in another order.\<close>

definition demo_corpus_relisted :: "fs_node list option" where
  "demo_corpus_relisted = Some [Dir ''www'' (Some [file_b, file_a, file_c, file_f, file_d, file_e])]"

text \<open>The lengths of the documents: of the first two, and of the third.\<close>

definition length_two_terms :: real where
  "length_two_terms = max ((1 + ln 2)\<^sup>2 + (1 + ln 3)\<^sup>2) (1 / 10 ^ 9)"

definition length_one_term :: real where
  "length_one_term = max ((1 + ln 2)\<^sup>2) (1 / 10 ^ 9)"

definition demo_builder :: builder where
  "demo_builder =
     \<lparr>doc_lookup = [(0, ''u0''), (1, ''u1''), (2, ''u2'')],
      doc_lengths =
        [(0, length_two_terms), (1, length_two_terms), (2, length_one_term)],
      doc_seen_urls = [(''u0'', 0), (''u1'', 1), (''u2'', 2)],
      postings_acc = [(''cat'', cat_postings), (''dog'', dog_postings), (''bird'', bird_postings)],
      next_doc_id = 3, files_processed = 5, files_skipped = 2\<rparr>"

definition demo_index :: index_files where
  "demo_index =
     \<lparr>lexicon_jsonl =
        [\<lparr>term_e = ''bird'', doc_freq = 2, offset = 0, length_e = 7\<rparr>,
         \<lparr>term_e = ''cat'', doc_freq = 2, offset = 7, length_e = 6\<rparr>,
         \<lparr>term_e = ''dog'', doc_freq = 1, offset = 13, length_e = 6\<rparr>],
      postings_jsonl = ''[bird]'' @ [CHR 10] @ ''[cat]'' @ [CHR 10] @ ''[dog]'' @ [CHR 10],
      doc_lookup_json = [(0, ''u0''), (1, ''u1''), (2, ''u2'')],
      doc_lengths_json =
        [(0, length_two_terms), (1, length_two_terms), (2, length_one_term)],
      num_documents = 3,
      num_unique_terms = 3\<rparr>"

text \<open>The same index with a \<^verbatim>\<open>doc_lookup\<close> that has the empty URL for document 1
  and no URL for document 2.\<close>

definition demo_index_urls_lost :: index_files where
  "demo_index_urls_lost = demo_index\<lparr>doc_lookup_json := [(0, ''u0''), (1, [])]\<rparr>"

section \<open>Properties of the parser and the builder\<close>

lemma bind_r_Inr: "bind_r x f = Inr y \<longleftrightarrow> (\<exists>a. x = Inr a \<and> f a = Inr y)"
  by (cases x) (simp_all add: bind_r_def)

lemma bind_r_simps [simp]: "bind_r (Inr a) f = f a" "bind_r (Inl e) f = Inl e"
  by (simp_all add: bind_r_def)

lemma foldl_invariant:
  assumes "P s" and "\<And>s x. P s \<Longrightarrow> x \<in> set xs \<Longrightarrow> P (f s x)"
  shows "P (foldl f s xs)"
  using assms by (induction xs arbitrary: s) auto

lemma list_all_update_with_aux:
  assumes "list_all (\<lambda>(t, s). Q s) al" and "\<And>s. Q s \<Longrightarrow> Q (f s)" and "Q (f v)"
  shows "list_all (\<lambda>(t, s). Q s) (AList.update_with_aux v k f al)"
  using assms by (induction al) auto

lemma process_token_ok:
  assumes "well_parsed (fst st)" and "1 \<le> boost"
  shows "well_parsed (fst (process_token L boost st token))"
proof -
  let ?Q = "\<lambda>s. 1 \<le> weighted_tf_s s \<and> 1 \<le> raw_tf_s s \<and> int (length (positions s)) = raw_tf_s s"
  have "list_all (\<lambda>(t, s). ?Q s)
          (AList.update_with_aux TokenStats (stem L token) (record_token boost (snd st + 1)) (fst st))"
  proof (rule list_all_update_with_aux)
    show "list_all (\<lambda>(t, s). ?Q s) (fst st)" using assms(1) by (simp add: well_parsed_def)
    show "?Q (record_token boost (snd st + 1) s)" if "?Q s" for s
      using that assms(2) by (simp add: record_token_def)
    show "?Q (record_token boost (snd st + 1) TokenStats)"
      using assms(2) by (simp add: record_token_def TokenStats_def)
  qed
  then show ?thesis using assms(1)
    by (simp add: process_token_def well_parsed_def Let_def)
qed

lemma process_text_ok:
  assumes "well_parsed (fst st)" and "1 \<le> boost"
  shows "well_parsed (fst (process_text L text boost st))"
  unfolding process_text_def
  by (rule foldl_invariant [where P = "\<lambda>st. well_parsed (fst st)"])
     (use assms in \<open>auto intro: process_token_ok\<close>)

lemma IMPORTANT_WEIGHTS_ge_1: "(tag, weight) \<in> set IMPORTANT_WEIGHTS \<Longrightarrow> 1 \<le> weight"
  by (auto simp: IMPORTANT_WEIGHTS_def)

lemma parse_well_parsed: "well_parsed (parse L html)"
proof -
  let ?P = "\<lambda>st :: (string \<times> token_stats) list \<times> int. well_parsed (fst st)"
  let ?visible = "filter (\<lambda>(parent_name, element :: string).
                       parent_name \<notin> {Some ''script'', Some ''style'', Some ''noscript''})
                     (text_nodes L html)"
  let ?st1 = "foldl (\<lambda>st (parent_name, element). process_text L element BASE_WEIGHT st)
                  ([], 0) ?visible"
  have 1: "?P ?st1"
    by (rule foldl_invariant [where P = ?P])
       (auto simp: well_parsed_def BASE_WEIGHT_def intro!: process_text_ok [unfolded well_parsed_def])
  have 2: "?P (foldl (\<lambda>st (tag, weight).
                         foldl (\<lambda>st' node_text. process_text L node_text weight st')
                           st (tag_texts L html tag)) ?st1 IMPORTANT_WEIGHTS)"
  proof (rule foldl_invariant [where P = ?P, OF 1])
    fix s :: "(string \<times> token_stats) list \<times> int" and x :: "string \<times> real"
    assume s: "?P s" and x: "x \<in> set IMPORTANT_WEIGHTS"
    obtain tag weight where tw: "x = (tag, weight)" by (cases x)
    with x have w: "1 \<le> weight" by (auto dest: IMPORTANT_WEIGHTS_ge_1)
    have "?P (foldl (\<lambda>st' node_text. process_text L node_text weight st') s (tag_texts L html tag))"
      by (rule foldl_invariant [where P = ?P, OF s]) (rule process_text_ok [OF _ w])
    with tw show "?P (case x of (tag, weight) \<Rightarrow>
             foldl (\<lambda>st' node_text. process_text L node_text weight st') s (tag_texts L html tag))"
      by simp
  qed
  then show ?thesis by (simp add: parse_def Let_def)
qed

lemma postings_of_update:
  "postings_of (AList.update_with_aux [] t0 (\<lambda>ps. ps @ [p]) acc) t =
     (if t = t0 then postings_of acc t0 @ [p] else postings_of acc t)"
  by (simp add: postings_of_def map_of_update_with_aux split: option.splits)

lemma index_terms_result:
  assumes "distinct (map fst stats)"
    and "list_all (\<lambda>(t, s). 1 \<le> weighted_tf_s s) stats"
  shows "\<exists>acc'. index_terms d stats (acc, len) =
             Inr (acc', len + (\<Sum>(t, s)\<leftarrow>stats. (1 + ln (1 + weighted_tf_s s))\<^sup>2))
           \<and> (\<forall>t. postings_of acc' t =
                  postings_of acc t @ (case map_of stats t of None \<Rightarrow> [] | Some s \<Rightarrow> [Posting d s]))
           \<and> (distinct (map fst acc) \<longrightarrow> distinct (map fst acc'))
           \<and> set (map fst acc') = set (map fst acc) \<union> set (map fst stats)"
  using assms
proof (induction stats arbitrary: acc len)
  case Nil
  then show ?case by simp
next
  case (Cons ts rest)
  obtain t0 s0 where ts: "ts = (t0, s0)" by (cases ts)
  let ?acc1 = "AList.update_with_aux [] t0 (\<lambda>ps. ps @ [Posting d s0]) acc"
  let ?x = "(1 + ln (1 + weighted_tf_s s0))\<^sup>2"
  from Cons.prems ts have w: "0 < 1 + weighted_tf_s s0" and fresh: "t0 \<notin> fst ` set rest"
    and d: "distinct (map fst rest)" and r: "list_all (\<lambda>(t, s). 1 \<le> weighted_tf_s s) rest"
    by auto
  from Cons.IH [OF d r, of ?acc1 "len + ?x"] obtain acc' where
    run: "index_terms d rest (?acc1, len + ?x) =
            Inr (acc', len + ?x + (\<Sum>(t, s)\<leftarrow>rest. (1 + ln (1 + weighted_tf_s s))\<^sup>2))"
    and posts: "\<forall>t. postings_of acc' t =
                  postings_of ?acc1 t @ (case map_of rest t of None \<Rightarrow> [] | Some s \<Rightarrow> [Posting d s])"
    and dist: "distinct (map fst ?acc1) \<longrightarrow> distinct (map fst acc')"
    and keys: "set (map fst acc') = set (map fst ?acc1) \<union> set (map fst rest)"
    by blast
  have step: "index_terms d (ts # rest) (acc, len) = index_terms d rest (?acc1, len + ?x)"
    using w ts by (simp add: math_log_def Let_def power2_eq_square)
  have none: "map_of rest t0 = None" using fresh by (simp add: map_of_eq_None_iff)
  have "postings_of acc' t =
          postings_of acc t @ (case map_of (ts # rest) t of None \<Rightarrow> [] | Some s \<Rightarrow> [Posting d s])"
    for t
    using posts [rule_format, of t] none ts by (simp add: postings_of_update)
  moreover have "distinct (map fst acc) \<longrightarrow> distinct (map fst acc')"
    using dist by simp
  moreover have "set (map fst acc') = set (map fst acc) \<union> set (map fst (ts # rest))"
    using keys ts by (auto simp: dom_update_with_aux)
  ultimately show ?case
    using step run ts by (auto simp: add.assoc)
qed

lemma first_by_url_snoc:
  "first_by_url (ds @ [d]) =
     first_by_url ds @ (if fst d \<in> fst ` set ds then [] else [d])"
proof -
  let ?n = "length ds"
  let ?keep = "\<lambda>xs i. fst (xs ! i) \<notin> fst ` set (take i xs)"
  have old: "filter (?keep (ds @ [d])) [0..<?n] = filter (?keep ds) [0..<?n]"
    by (rule filter_cong) (auto simp: nth_append)
  have new: "?keep (ds @ [d]) ?n \<longleftrightarrow> fst d \<notin> fst ` set ds"
    by simp
  have "[0..<length (ds @ [d])] = [0..<?n] @ [?n]" by simp
  then have "filter (?keep (ds @ [d])) [0..<length (ds @ [d])] =
          filter (?keep (ds @ [d])) [0..<?n] @ filter (?keep (ds @ [d])) [?n]"
    by (simp only: filter_append)
  also have "\<dots> = filter (?keep ds) [0..<?n] @ (if fst d \<in> fst ` set ds then [] else [?n])"
    unfolding old using new by simp
  finally have "filter (?keep (ds @ [d])) [0..<length (ds @ [d])] =
          filter (?keep ds) [0..<?n] @ (if fst d \<in> fst ` set ds then [] else [?n])" .
  moreover have "map (\<lambda>i. (ds @ [d]) ! i) (filter (?keep ds) [0..<?n]) =
                   map (\<lambda>i. ds ! i) (filter (?keep ds) [0..<?n])"
    by (rule map_cong) (auto simp: nth_append)
  ultimately show ?thesis by (simp add: first_by_url_def)
qed

lemma first_by_url_Nil [simp]: "first_by_url [] = []"
  by (simp add: first_by_url_def)

lemma first_by_url_urls: "fst ` set (first_by_url ds) = fst ` set ds"
  by (induction ds rule: rev_induct) (auto simp: first_by_url_snoc)

lemma first_by_url_distinct: "distinct (map fst (first_by_url ds))"
proof (induction ds rule: rev_induct)
  case Nil
  show ?case by simp
next
  case (snoc d ds)
  then show ?case using first_by_url_urls [of ds] by (auto simp: first_by_url_snoc)
qed

lemma update_fresh: "k \<notin> fst ` set al \<Longrightarrow> AList.update k v al = al @ [(k, v)]"
  by (induction al) auto

lemma doc_ids_snoc: "doc_ids (ds @ [d]) = doc_ids ds @ [int (length ds)]"
  by (simp add: doc_ids_def)

lemma doc_ids_length [simp]: "length (doc_ids ds) = length ds"
  by (simp add: doc_ids_def)

lemma doc_ids_fresh: "int (length ds) \<notin> set (doc_ids ds)"
  by (auto simp: doc_ids_def)

lemma doc_postings_snoc:
  "doc_postings L (ds @ [d]) t =
     doc_postings L ds t @
       (case map_of (parse L (snd d)) t of None \<Rightarrow> [] | Some s \<Rightarrow> [Posting (int (length ds)) s])"
  by (simp add: doc_postings_def enumerate_append_eq)

lemma built_counters:
  "built L docs b \<Longrightarrow> built L docs (b\<lparr>files_processed := p, files_skipped := q\<rparr>)"
  "built L docs b \<Longrightarrow> built L docs (b\<lparr>files_processed := p\<rparr>)"
  by (simp_all add: built_def)

lemma zip_keys: "length xs = length ys \<Longrightarrow> fst ` set (zip xs ys) = set xs"
  by (metis map_fst_zip set_map)

lemma parse_stats:
  "distinct (map fst (parse L html))"
  "list_all (\<lambda>(t, s). 1 \<le> weighted_tf_s s) (parse L html)"
  using parse_well_parsed [of L html]
  by (auto simp: well_parsed_def list_all_iff)

lemma build_file_new:
  assumes B: "built L docs b"
    and ld: "load_document f = Some payload"
    and u: "payload ''url'' = Some u"
    and fresh: "u \<notin> fst ` set docs"
    and html: "html = (case payload ''content'' of None \<Rightarrow> [] | Some c \<Rightarrow> c)"
  shows "\<exists>b'. build_file L b f = Inr b' \<and> built L (docs @ [(u, html)]) b'"
proof -
  let ?n = "int (length docs)"
  let ?stats = "parse L html"
  have "distinct (map fst ?stats)" "list_all (\<lambda>(t, s). 1 \<le> weighted_tf_s s) ?stats"
    by (rule parse_stats)+
  from index_terms_result [OF this, of ?n "postings_acc b" 0]
  obtain acc' where
    run: "index_terms ?n ?stats (postings_acc b, 0) =
            Inr (acc', 0 + (\<Sum>(t, s)\<leftarrow>?stats. (1 + ln (1 + weighted_tf_s s))\<^sup>2))"
    and posts: "\<forall>t. postings_of acc' t =
                  postings_of (postings_acc b) t @
                    (case map_of ?stats t of None \<Rightarrow> [] | Some s \<Rightarrow> [Posting ?n s])"
    and dist: "distinct (map fst (postings_acc b)) \<longrightarrow> distinct (map fst acc')"
    and keys: "set (map fst acc') = set (map fst (postings_acc b)) \<union> set (map fst ?stats)"
    by blast
  let ?len = "0 + (\<Sum>(t, s)\<leftarrow>?stats. (1 + ln (1 + weighted_tf_s s))\<^sup>2)"
  let ?b' = "b\<lparr>files_processed := files_processed b + 1,
                doc_lookup := AList.update ?n u (doc_lookup b),
                doc_seen_urls := AList.update u ?n (doc_seen_urls b),
                postings_acc := acc',
                doc_lengths := AList.update ?n (max ?len (1 / 10 ^ 9)) (doc_lengths b),
                next_doc_id := ?n + 1\<rparr>"
  have seen: "set (map fst (doc_seen_urls b)) = fst ` set docs"
    using B by (simp add: built_def zip_keys)
  have nd: "next_doc_id b = ?n" using B by (simp add: built_def)
  have "build_file L b f = Inr ?b'"
    using ld u fresh seen nd run html
    by (simp add: build_file_def Let_def)
  moreover have "built L (docs @ [(u, html)]) ?b'"
  proof -
    have 1: "AList.update ?n u (doc_lookup b) = zip (doc_ids (docs @ [(u, html)])) (map fst (docs @ [(u, html)]))"
      using B doc_ids_fresh [of docs]
      by (simp add: built_def update_fresh zip_keys doc_ids_snoc)
    have 2: "AList.update u ?n (doc_seen_urls b) = zip (map fst (docs @ [(u, html)])) (doc_ids (docs @ [(u, html)]))"
      using B fresh
      by (simp add: built_def update_fresh zip_keys doc_ids_snoc)
    have 3: "AList.update ?n (max ?len (1 / 10 ^ 9)) (doc_lengths b) =
               zip (doc_ids (docs @ [(u, html)]))
                   (map (\<lambda>d. doc_length_of (parse L (snd d))) (docs @ [(u, html)]))"
      using B doc_ids_fresh [of docs]
      by (simp add: built_def update_fresh zip_keys doc_ids_snoc doc_length_of_def)
    have 4: "distinct (map fst acc')" using B dist by (simp add: built_def)
    have 5: "postings_of acc' t = doc_postings L (docs @ [(u, html)]) t" for t
      using B posts by (simp add: built_def doc_postings_snoc)
    have "set (map fst ?stats) = {t. map_of ?stats t \<noteq> None}"
      by (auto simp: map_of_eq_None_iff)
    then have 6: "set (map fst acc') = {t. doc_postings L (docs @ [(u, html)]) t \<noteq> []}"
      using B keys by (auto simp: built_def doc_postings_snoc split: option.splits)
    show ?thesis
      unfolding built_def using 1 2 3 4 5 6 by simp
  qed
  ultimately show ?thesis by blast
qed

lemma build_file_step:
  assumes B: "built L (first_by_url (loaded_docs pre)) b"
    and ok: "case load_document f of None \<Rightarrow> True | Some payload \<Rightarrow> payload ''url'' \<noteq> None"
  shows "\<exists>b'. build_file L b f = Inr b' \<and> built L (first_by_url (loaded_docs (pre @ [f]))) b'"
proof (cases "load_document f")
  case None
  then have "build_file L b f =
      Inr (b\<lparr>files_processed := files_processed b + 1, files_skipped := files_skipped b + 1\<rparr>)"
    by (simp add: build_file_def Let_def)
  moreover have "loaded_docs (pre @ [f]) = loaded_docs pre"
    using None by (simp add: loaded_docs_def)
  ultimately show ?thesis using B by (simp add: built_counters)
next
  case (Some payload)
  with ok obtain u where u: "payload ''url'' = Some u" by auto
  define html where "html = (case payload ''content'' of None \<Rightarrow> [] | Some c \<Rightarrow> c)"
  let ?docs = "first_by_url (loaded_docs pre)"
  have ld: "loaded_docs (pre @ [f]) = loaded_docs pre @ [(u, html)]"
    using Some u by (simp add: loaded_docs_def payload_doc_def html_def)
  show ?thesis
  proof (cases "u \<in> fst ` set (loaded_docs pre)")
    case True
    have "set (map fst (doc_seen_urls b)) = fst ` set ?docs"
      using B by (simp add: built_def zip_keys)
    with True have "u \<in> set (map fst (doc_seen_urls b))" by (simp add: first_by_url_urls)
    then have "build_file L b f =
        Inr (b\<lparr>files_processed := files_processed b + 1, files_skipped := files_skipped b + 1\<rparr>)"
      using Some u by (simp add: build_file_def Let_def)
    moreover have "first_by_url (loaded_docs (pre @ [f])) = ?docs"
      using True by (simp add: ld first_by_url_snoc)
    ultimately show ?thesis using B by (simp add: built_counters)
  next
    case False
    then have fresh: "u \<notin> fst ` set ?docs" by (simp add: first_by_url_urls)
    have "first_by_url (loaded_docs (pre @ [f])) = ?docs @ [(u, html)]"
      using False by (simp add: ld first_by_url_snoc)
    with build_file_new [OF B Some u fresh html_def] show ?thesis by simp
  qed
qed

lemma build_files_built:
  assumes "built L (first_by_url (loaded_docs pre)) b" and "urls_present files"
  shows "\<exists>b'. build_files L b files = Inr b'
             \<and> built L (first_by_url (loaded_docs (pre @ files))) b'"
  using assms
proof (induction files arbitrary: pre b)
  case Nil
  then show ?case by simp
next
  case (Cons f fs)
  from Cons.prems(2) have ok: "case load_document f of None \<Rightarrow> True | Some payload \<Rightarrow> payload ''url'' \<noteq> None"
    and rest: "urls_present fs" by (simp_all add: urls_present_def)
  from build_file_step [OF Cons.prems(1) ok] obtain b1 where
    1: "build_file L b f = Inr b1" and 2: "built L (first_by_url (loaded_docs (pre @ [f]))) b1"
    by blast
  from Cons.IH [OF 2 rest] 1 show ?case by simp
qed

lemma built_new: "built L [] new_builder"
  by (simp add: built_def new_builder_def doc_ids_def doc_postings_def postings_of_def)

lemma build_files_correct:
  assumes "urls_present files"
  shows "\<exists>b. build_files L new_builder files = Inr b
            \<and> built L (first_by_url (loaded_docs files)) b"
  using build_files_built [of L "[]" new_builder files] assms
  by (simp add: built_new loaded_docs_def)

lemma write_terms_result:
  "\<exists>new. write_terms L acc ts (lf, pf) = (lf @ new, pf @ concat (map (block L acc) ts))
         \<and> map term_e new = ts
         \<and> (\<forall>e\<in>set new.
               doc_freq e = int (length (postings_of acc (term_e e)))
               \<and> 0 \<le> offset e
               \<and> length_e e = int (length (block L acc (term_e e)))
               \<and> (\<exists>rest. drop (nat (offset e)) (pf @ concat (map (block L acc) ts))
                            = block L acc (term_e e) @ rest))"
proof (induction ts arbitrary: lf pf)
  case Nil
  show ?case by simp
next
  case (Cons t ts)
  let ?e = "\<lparr>term_e = t, doc_freq = int (length (sorted_postings acc t)),
              offset = int (length pf),
              length_e = int (length (pf @ block L acc t)) - int (length pf)\<rparr>"
  have step: "write_terms L acc (t # ts) (lf, pf) =
                write_terms L acc ts (lf @ [?e], pf @ block L acc t)"
    by (simp add: Let_def block_def sorted_postings_def)
  from Cons.IH [of "lf @ [?e]" "pf @ block L acc t"] obtain new where
    run: "write_terms L acc ts (lf @ [?e], pf @ block L acc t) =
            ((lf @ [?e]) @ new, (pf @ block L acc t) @ concat (map (block L acc) ts))"
    and terms: "map term_e new = ts"
    and each: "\<forall>e\<in>set new.
               doc_freq e = int (length (postings_of acc (term_e e)))
               \<and> 0 \<le> offset e
               \<and> length_e e = int (length (block L acc (term_e e)))
               \<and> (\<exists>rest. drop (nat (offset e)) ((pf @ block L acc t) @ concat (map (block L acc) ts))
                            = block L acc (term_e e) @ rest)"
    by blast
  have head: "drop (nat (offset ?e)) (pf @ concat (map (block L acc) (t # ts)))
                = block L acc (term_e ?e) @ concat (map (block L acc) ts)"
    by simp
  have A: "write_terms L acc (t # ts) (lf, pf) =
            (lf @ ?e # new, pf @ concat (map (block L acc) (t # ts)))"
    using step run by simp
  have B: "map term_e (?e # new) = t # ts" using terms by simp
  have C: "doc_freq e = int (length (postings_of acc (term_e e)))
               \<and> 0 \<le> offset e
               \<and> length_e e = int (length (block L acc (term_e e)))
               \<and> (\<exists>rest. drop (nat (offset e)) (pf @ concat (map (block L acc) (t # ts)))
                            = block L acc (term_e e) @ rest)"
    if "e \<in> set (?e # new)" for e
  proof -
    from that consider "e = ?e" | "e \<in> set new" by auto
    then show ?thesis
    proof cases
      case 1
      then show ?thesis using head by (simp add: sorted_postings_def)
    next
      case 2
      with each show ?thesis by simp
    qed
  qed
  show ?case
    by (rule exI [of _ "?e # new"]) (intro conjI ballI A B C)
qed

lemma load_lexicon_fold:
  fixes es :: "lexicon_entry list"
  defines "f \<equiv> \<lambda>lexicon entry. lexicon(term_e entry \<mapsto> entry)"
  shows "t \<notin> term_e ` set es \<Longrightarrow> foldl f m es t = m t"
    and "e \<in> set es \<Longrightarrow> distinct (map term_e es) \<Longrightarrow> foldl f m es (term_e e) = Some e"
proof -
  have f: "f m' x = m'(term_e x \<mapsto> x)" for m' x by (simp add: f_def)
  have other: "foldl f m' xs t' = m' t'" if "t' \<notin> term_e ` set xs" for m' xs t'
    using that
  proof (induction xs arbitrary: m')
    case Nil
    show ?case by simp
  next
    case (Cons x xs)
    then have "foldl f (f m' x) xs t' = (f m' x) t'" by simp
    also have "\<dots> = m' t'" using Cons.prems by (simp add: f)
    finally show ?case by simp
  qed
  show "t \<notin> term_e ` set es \<Longrightarrow> foldl f m es t = m t" by (rule other)
  show "e \<in> set es \<Longrightarrow> distinct (map term_e es) \<Longrightarrow> foldl f m es (term_e e) = Some e"
  proof (induction es arbitrary: m)
    case Nil
    then show ?case by simp
  next
    case (Cons x xs)
    show ?case
    proof (cases "e = x")
      case True
      with Cons.prems have "term_e x \<notin> term_e ` set xs" by simp
      then have "foldl f (f m x) xs (term_e x) = (f m x) (term_e x)" by (rule other)
      also have "\<dots> = Some x" by (simp add: f)
      finally show ?thesis using True by simp
    next
      case False
      with Cons.prems have "e \<in> set xs" "distinct (map term_e xs)" by simp_all
      then have "foldl f (f m x) xs (term_e e) = Some e" by (rule Cons.IH)
      then show ?thesis by simp
    qed
  qed
qed

lemma readline_block:
  "CHR 10 \<notin> set s \<Longrightarrow> CHR 13 \<notin> set s \<Longrightarrow> readline (s @ CHR 10 # rest) = s @ [CHR 10]"
  by (induction s) auto

lemma rstrip_block:
  "CHR 10 \<notin> set s \<Longrightarrow> CHR 13 \<notin> set s \<Longrightarrow> rstrip (s @ [CHR 10]) = s"
proof -
  assume a: "CHR 10 \<notin> set s" "CHR 13 \<notin> set s"
  have "dropWhile (\<lambda>c. c = CHR 10 \<or> c = CHR 13) (rev s) = rev s"
    using a by (cases "rev s") (auto simp: rev_eq_Cons_iff)
  then show ?thesis by (simp add: rstrip_def)
qed

lemma read_postings_data: "read_postings (postings_data ps) = Inr ps"
  by (induction ps)
     (simp_all add: read_postings_def postings_data_def posting_data_def read_posting_def)

lemma index_terms_distinct:
  "index_terms d stats (acc, len) = Inr (acc', len') \<Longrightarrow> distinct (map fst acc) \<Longrightarrow>
     distinct (map fst acc')"
proof (induction stats arbitrary: acc len)
  case Nil
  then show ?case by simp
next
  case (Cons ts rest)
  obtain t s where ts: "ts = (t, s)" by (cases ts)
  from Cons.prems(1) ts obtain l where
    "index_terms d rest (AList.update_with_aux [] t (\<lambda>ps. ps @ [Posting d s]) acc,
        len + (1 + l) * (1 + l)) = Inr (acc', len')"
    by (auto simp: Let_def split: sum.splits)
  moreover have "distinct (map fst (AList.update_with_aux [] t (\<lambda>ps. ps @ [Posting d s]) acc))"
    using Cons.prems(2) by simp
  ultimately show ?case by (rule Cons.IH)
qed

lemma build_file_distinct:
  "build_file L b f = Inr b' \<Longrightarrow> distinct (map fst (postings_acc b)) \<Longrightarrow>
     distinct (map fst (postings_acc b'))"
  by (auto simp: build_file_def Let_def split: option.splits if_splits sum.splits
        dest: index_terms_distinct)

lemma build_files_distinct:
  "build_files L b files = Inr b' \<Longrightarrow> distinct (map fst (postings_acc b)) \<Longrightarrow>
     distinct (map fst (postings_acc b'))"
proof (induction files arbitrary: b)
  case Nil
  then show ?case by simp
next
  case (Cons f fs)
  from Cons.prems(1) obtain b1 where 1: "build_file L b f = Inr b1"
    and 2: "build_files L b1 fs = Inr b'" by (auto split: sum.splits)
  from 2 build_file_distinct [OF 1 Cons.prems(2)] show ?case by (rule Cons.IH)
qed

lemma write_index_round_trip:
  assumes d: "distinct (map fst acc)"
    and w: "write_index L acc = (lf, pf)"
    and files: "lexicon_jsonl idx = lf" "postings_jsonl idx = pf"
    and e: "e \<in> set lf"
    and codec: "codec_ok L (postings_data (sorted_postings acc (term_e e)))"
  shows "load_lexicon idx (term_e e) = Some e
       \<and> term_e e \<in> set (map fst acc)
       \<and> 0 \<le> offset e \<and> 0 \<le> length_e e
       \<and> read_block L idx e = Inr (sorted_postings acc (term_e e))
       \<and> get_postings L idx (term_e e) = Inr (sorted_postings acc (term_e e))
       \<and> doc_freq e = int (length (sorted_postings acc (term_e e)))"
proof -
  let ?ts = "sort (map fst acc)"
  let ?s = "json_dumps L (postings_data (sorted_postings acc (term_e e)))"
  from write_terms_result [of L acc ?ts "[]" "[]"] w obtain new where
    lf: "lf = new" and pf: "pf = concat (map (block L acc) ?ts)"
    and terms: "map term_e new = ?ts"
    and each: "\<forall>e\<in>set new.
               doc_freq e = int (length (postings_of acc (term_e e)))
               \<and> 0 \<le> offset e
               \<and> length_e e = int (length (block L acc (term_e e)))
               \<and> (\<exists>rest. drop (nat (offset e)) (concat (map (block L acc) ?ts))
                            = block L acc (term_e e) @ rest)"
    by (auto simp: write_index_def)
  have dist: "distinct (map term_e lf)" using d terms lf by simp
  from e each lf pf obtain rest where
    df: "doc_freq e = int (length (postings_of acc (term_e e)))"
    and off: "0 \<le> offset e"
    and len: "length_e e = int (length (block L acc (term_e e)))"
    and at: "drop (nat (offset e)) pf = block L acc (term_e e) @ rest"
    by blast
  have lex: "load_lexicon idx (term_e e) = Some e"
    using load_lexicon_fold(2) [OF e dist] files by (simp add: load_lexicon_def)
  have key: "term_e e \<in> set (map fst acc)"
  proof -
    from e lf have "term_e e \<in> set (map term_e new)" by simp
    then show ?thesis unfolding terms by simp
  qed
  from codec have loads: "json_loads L ?s = Some (postings_data (sorted_postings acc (term_e e)))"
    and nl: "CHR 10 \<notin> set ?s" "CHR 13 \<notin> set ?s"
    by (simp_all add: codec_ok_def)
  have blk: "block L acc (term_e e) = ?s @ [CHR 10]" by (simp add: block_def)
  have n: "nat (length_e e) = length (block L acc (term_e e))" using len by simp
  have "take (length (block L acc (term_e e))) (block L acc (term_e e) @ rest)
          = block L acc (term_e e)"
    by simp
  then have "take (nat (length_e e)) (drop (nat (offset e)) pf) = ?s @ [CHR 10]"
    unfolding at n blk .
  then have rb: "read_block L idx e = Inr (sorted_postings acc (term_e e))"
    using files loads nl by (simp add: read_block_def rstrip_block read_postings_data)
  have "readline (drop (nat (offset e)) pf) = ?s @ [CHR 10]"
    using at blk nl by (simp add: readline_block)
  then have gp: "get_postings L idx (term_e e) = Inr (sorted_postings acc (term_e e))"
    using lex off files loads nl
    by (simp add: get_postings_def Let_def rstrip_block read_postings_data)
  show ?thesis using lex key off len rb gp df by (simp add: sorted_postings_def)
qed

lemma average_loop:
  "foldl (\<lambda>(total, count) v. (total + real_of_int v, count + 1)) (t, c :: int) vs =
     (t + real_of_int (sum_list vs), c + int (length vs))"
  by (induction vs arbitrary: t c) auto

lemma average_eq:
  "average vs = real_of_int (sum_list vs) / real_of_int (max (int (length vs)) 1)"
  by (simp add: average_def average_loop)

lemma build_correct:
  assumes "urls_present (iter_corpus_files corpus_root)"
  shows "\<exists>b. build L corpus_root = Inr (b, write_files L b)
            \<and> built L (first_by_url (loaded_docs (iter_corpus_files corpus_root))) b"
  using build_files_correct [OF assms, of L] by (auto simp: build_def)

lemma write_files_fields:
  "doc_lookup_json (write_files L b) = doc_lookup b"
  "doc_lengths_json (write_files L b) = doc_lengths b"
  "num_documents (write_files L b) = int (length (doc_lookup b))"
  "lexicon_jsonl (write_files L b) = fst (write_index L (postings_acc b))"
  "postings_jsonl (write_files L b) = snd (write_index L (postings_acc b))"
  by (simp_all add: write_files_def split: prod.splits)

lemma doc_postings_member:
  "p \<in> set (doc_postings L docs t) \<Longrightarrow>
     \<exists>i s. i < length docs \<and> map_of (parse L (snd (docs ! i))) t = Some s \<and> p = Posting (int i) s"
proof -
  let ?f = "\<lambda>(i, d). case map_of (parse L (snd d)) t of
                      None \<Rightarrow> [] | Some s \<Rightarrow> [Posting (int i) s]"
  assume "p \<in> set (doc_postings L docs t)"
  then obtain x where x: "x \<in> set (enumerate 0 docs)" and p: "p \<in> set (?f x)"
    unfolding doc_postings_def set_concat set_map by blast
  obtain i d where id: "x = (i, d)" by (cases x)
  from x id have "i < length docs" "d = docs ! i" by (auto simp: in_set_enumerate_eq)
  with p id show ?thesis by (cases "map_of (parse L (snd d)) t") auto
qed

lemma parse_positions:
  "map_of (parse L html) t = Some s \<Longrightarrow> positions s \<noteq> [] \<and> 1 \<le> weighted_tf_s s"
proof -
  assume "map_of (parse L html) t = Some s"
  then have "(t, s) \<in> set (parse L html)" by (rule map_of_SomeD)
  with parse_well_parsed [of L html] show ?thesis
    by (auto simp: well_parsed_def list_all_iff)
qed

section \<open>Properties of the reader and the search\<close>

lemma fetch_postings_Some:
  "fetch_postings L idx ts tp = Inr (Some tp') \<Longrightarrow>
     (\<forall>t\<in>set ts. \<exists>ps. get_postings L idx t = Inr ps \<and> ps \<noteq> [] \<and> map_of tp' t = Some ps)
     \<and> (\<forall>t. t \<notin> set ts \<longrightarrow> map_of tp' t = map_of tp t)
     \<and> set (map fst tp') = set (map fst tp) \<union> set ts"
proof (induction ts arbitrary: tp)
  case Nil
  then show ?case by simp
next
  case (Cons t ts)
  from Cons.prems obtain ps where ps: "get_postings L idx t = Inr ps" "ps \<noteq> []"
    and rest: "fetch_postings L idx ts (AList.update t ps tp) = Inr (Some tp')"
    by (auto split: sum.splits if_splits)
  note IH = Cons.IH [OF rest]
  have head: "map_of tp' t = Some ps"
  proof (cases "t \<in> set ts")
    case True
    with IH ps show ?thesis by auto
  next
    case False
    with IH have "map_of tp' t = map_of (AList.update t ps tp) t" by blast
    then show ?thesis by (simp add: update_conv')
  qed
  have other: "map_of tp' u = map_of tp u" if "u \<notin> set (t # ts)" for u
  proof -
    from that IH have "map_of tp' u = map_of (AList.update t ps tp) u" by auto
    with that show ?thesis by (simp add: update_conv')
  qed
  have keys: "set (map fst tp') = set (map fst tp) \<union> set (t # ts)"
    using IH by (auto simp: dom_update)
  show ?case using IH ps head other keys by auto
qed

lemma fetch_postings_None:
  "fetch_postings L idx ts tp = Inr None \<Longrightarrow> \<exists>t\<in>set ts. get_postings L idx t = Inr []"
  by (induction ts arbitrary: tp) (auto split: sum.splits if_splits)

lemma fetch_postings_empty:
  "\<forall>t\<in>set ts. \<exists>ps. get_postings L idx t = Inr ps \<Longrightarrow>
   \<exists>t\<in>set ts. get_postings L idx t = Inr [] \<Longrightarrow>
   fetch_postings L idx ts tp = Inr None"
  by (induction ts arbitrary: tp) (auto split: sum.splits if_splits)

lemma fetch_postings_total:
  "\<forall>t\<in>set ts. \<exists>ps. get_postings L idx t = Inr ps \<and> ps \<noteq> [] \<Longrightarrow>
   \<exists>tp'. fetch_postings L idx ts tp = Inr (Some tp')"
  by (induction ts arbitrary: tp) (auto split: sum.splits if_splits)

lemma getitem_Some: "map_of d k = Some v \<Longrightarrow> getitem d k = Inr v"
  by (simp add: getitem_def)

lemma intersect_terms_eq:
  "\<forall>t\<in>set ts. \<exists>ps. map_of tp t = Some ps \<and> posting_docs ps = D t \<Longrightarrow>
   intersect_terms tp ts c = Inr (c \<inter> (\<Inter>t\<in>set ts. D t))"
proof (induction ts arbitrary: c)
  case Nil
  then show ?case by simp
next
  case (Cons t ts)
  then obtain ps where ps: "map_of tp t = Some ps" "posting_docs ps = D t" by auto
  have "intersect_terms tp (t # ts) c = intersect_terms tp ts (c \<inter> D t)"
    using ps by (simp add: getitem_Some)
  also have "\<dots> = Inr ((c \<inter> D t) \<inter> (\<Inter>t\<in>set ts. D t))"
    using Cons by simp
  finally show ?case by (simp add: Int_assoc)
qed

lemma boolean_and_eq:
  assumes "tp \<noteq> []"
    and "\<forall>t\<in>set (map fst tp). \<exists>ps. map_of tp t = Some ps \<and> posting_docs ps = D t"
  shows "boolean_and tp = Inr (\<Inter>t\<in>set (map fst tp). D t)"
proof -
  from assms(1) obtain k v rest where tp: "tp = (k, v) # rest" by (cases tp) auto
  from assms(2) tp obtain ps where ps: "map_of tp k = Some ps" "posting_docs ps = D k" by auto
  have rest: "\<forall>t\<in>set (map fst rest). \<exists>ps. map_of tp t = Some ps \<and> posting_docs ps = D t"
    using assms(2) tp by auto
  have "boolean_and tp = intersect_terms tp (map fst rest) (D k)"
    using ps tp by (simp add: boolean_and_def getitem_def)
  also have "\<dots> = Inr (D k \<inter> (\<Inter>t\<in>set (map fst rest). D t))"
    by (rule intersect_terms_eq [OF rest])
  finally show ?thesis using tp by simp
qed

lemma compute_idfs_Inr:
  "compute_idfs idx ts m = Inr m' \<Longrightarrow>
     (\<forall>t\<in>set ts. \<exists>v. compute_idf idx t = Inr v \<and> m' t = Some v)
     \<and> (\<forall>t. t \<notin> set ts \<longrightarrow> m' t = m t)"
proof (induction ts arbitrary: m)
  case Nil
  then show ?case by simp
next
  case (Cons t ts)
  from Cons.prems obtain v where v: "compute_idf idx t = Inr v"
    and rest: "compute_idfs idx ts (m(t \<mapsto> v)) = Inr m'"
    by (auto simp: bind_r_Inr)
  note IH = Cons.IH [OF rest]
  have "m' t = Some v"
  proof (cases "t \<in> set ts")
    case True
    with IH v show ?thesis by auto
  next
    case False
    with IH show ?thesis by auto
  qed
  with IH v show ?case by auto
qed

lemma compute_idfs_total:
  "\<forall>t\<in>set ts. \<exists>v. compute_idf idx t = Inr v \<Longrightarrow> \<exists>m'. compute_idfs idx ts m = Inr m'"
  by (induction ts arbitrary: m) auto

lemma compute_idfs_Inl:
  "compute_idfs idx ts m = Inl e \<Longrightarrow> \<exists>t\<in>set ts. compute_idf idx t = Inl e"
  by (induction ts arbitrary: m) (auto simp: bind_r_def split: sum.splits)

lemma score_terms_eq:
  assumes "\<forall>t\<in>set ts. \<exists>ps v. get_postings L idx t = Inr ps \<and> map_of tp t = Some ps
             \<and> compute_idf idx t = Inr v \<and> idfs t = Some v"
  shows "score_terms idx tp idfs d ts sc = Inr (sc + sum_list (map (\<lambda>t. tf_idf L idx t d) ts))"
  using assms
proof (induction ts arbitrary: sc)
  case Nil
  then show ?case by simp
next
  case (Cons t ts)
  then obtain ps v where t: "get_postings L idx t = Inr ps" "map_of tp t = Some ps"
    "compute_idf idx t = Inr v" "idfs t = Some v" by auto
  have IH: "score_terms idx tp idfs d ts sc' =
      Inr (sc' + sum_list (map (\<lambda>t. tf_idf L idx t d) ts))" for sc'
    using Cons by simp
  show ?case
  proof (cases "posting_map ps d")
    case None
    then show ?thesis using t IH by (simp add: getitem_Some tf_idf_def)
  next
    case (Some p)
    then show ?thesis using t IH by (simp add: getitem_Some tf_idf_def Let_def algebra_simps)
  qed
qed

lemma score_candidates_eq:
  assumes "\<forall>t\<in>set qs. \<exists>ps v. get_postings L idx t = Inr ps \<and> map_of tp t = Some ps
             \<and> compute_idf idx t = Inr v \<and> idfs t = Some v"
  shows "score_candidates idx tp idfs qs ds results =
           Inr (results @ map (result_for L idx qs) (filter (has_url idx) ds))"
proof (induction ds arbitrary: results)
  case Nil
  then show ?case by simp
next
  case (Cons d ds)
  have sc: "score_terms idx tp idfs d qs 0 = Inr (sum_list (map (\<lambda>t. tf_idf L idx t d) qs))"
    using score_terms_eq [OF assms, of d 0] by simp
  show ?case
  proof (cases "get_url idx d")
    case None
    then show ?thesis using sc Cons by (simp add: has_url_def)
  next
    case (Some u)
    then show ?thesis using sc Cons by (simp add: has_url_def result_for_def)
  qed
qed

lemma sort_by_score_set [simp]: "set (sort_by_score xs) = set xs"
  by (simp add: sort_by_score_def)

lemma sort_by_score_length [simp]: "length (sort_by_score xs) = length xs"
  by (simp add: sort_by_score_def)

lemma sort_by_score_sorted:
  "sorted_wrt (\<lambda>a b. score b \<le> score a) (sort_by_score xs)"
proof -
  have "sorted (map score (sort_key score (rev xs)))" by simp
  then have "sorted_wrt (\<lambda>a b. score a \<le> score b) (sort_key score (rev xs))"
    by (simp add: sorted_map)
  then show ?thesis by (simp add: sort_by_score_def sorted_wrt_rev)
qed

lemma slice_to_subset: "set (slice_to k xs) \<subseteq> set xs"
  by (auto simp: slice_to_def dest: in_set_takeD)

lemma slice_to_length: "0 \<le> k \<Longrightarrow> length (slice_to k xs) \<le> nat k"
  by (simp add: slice_to_def)

lemma slice_to_all: "int (length xs) \<le> k \<Longrightarrow> slice_to k xs = xs"
  by (simp add: slice_to_def)

lemma slice_to_sorted: "sorted_wrt P xs \<Longrightarrow> sorted_wrt P (slice_to k xs)"
  by (simp add: slice_to_def sorted_wrt_take)

lemma slice_to_negative: "k < 0 \<Longrightarrow> length (slice_to k xs) = length xs - nat (- k)"
  by (simp add: slice_to_def)

lemma search_cases:
  assumes "search L idx q k = Inr rs"
  shows "rs = [] \<and> (parse_query L q = []
                    \<or> (\<exists>t\<in>set (parse_query L q). get_postings L idx t = Inr [])
                    \<or> candidates L idx (parse_query L q) = {}) \<or>
         (parse_query L q \<noteq> []
          \<and> (\<forall>t\<in>set (parse_query L q). \<exists>ps. get_postings L idx t = Inr ps \<and> ps \<noteq> [])
          \<and> (\<forall>t\<in>set (parse_query L q). \<exists>v. compute_idf idx t = Inr v)
          \<and> rs = slice_to k (ranked L idx (parse_query L q)))"
proof -
  define qs where "qs = parse_query L q"
  show ?thesis
  proof (cases "qs = []")
    case True
    with assms show ?thesis by (simp add: search_def qs_def)
  next
    case False
    with assms obtain fetched where f: "fetch_postings L idx qs [] = Inr fetched"
      and r1: "(case fetched of None \<Rightarrow> Inr []
                | Some tp \<Rightarrow> bind_r (boolean_and tp) (\<lambda>c. if c = {} then Inr []
                    else bind_r (score_documents L idx c tp qs)
                           (\<lambda>s. Inr (slice_to k (sort_by_score s))))) = Inr rs"
      by (auto simp: search_def qs_def [symmetric] Let_def bind_r_Inr)
    show ?thesis
    proof (cases fetched)
      case None
      with r1 fetch_postings_None [OF f [unfolded None]] show ?thesis by (auto simp: qs_def)
    next
      case (Some tp)
      note F = fetch_postings_Some [OF f [unfolded Some]]
      have posts: "\<forall>t\<in>set qs. \<exists>ps. get_postings L idx t = Inr ps \<and> ps \<noteq> [] \<and> map_of tp t = Some ps"
        using F by blast
      have keys: "set (map fst tp) = set qs" using F by simp
      have "tp \<noteq> []" using keys False by auto
      moreover have "\<forall>t\<in>set (map fst tp). \<exists>ps. map_of tp t = Some ps \<and> posting_docs ps = term_docs L idx t"
        using posts keys by (fastforce simp: term_docs_def)
      ultimately have "boolean_and tp = Inr (\<Inter>t\<in>set (map fst tp). term_docs L idx t)"
        by (rule boolean_and_eq)
      then have ba: "boolean_and tp = Inr (candidates L idx qs)"
        unfolding candidates_def keys .
      show ?thesis
      proof (cases "candidates L idx qs = {}")
        case True
        with r1 Some ba show ?thesis by (simp add: qs_def)
      next
        case ne: False
        from r1 Some ba ne obtain scored where
          sd: "score_documents L idx (candidates L idx qs) tp qs = Inr scored"
          and rs: "rs = slice_to k (sort_by_score scored)"
          by (auto simp: bind_r_Inr)
        from sd obtain idfs where ci: "compute_idfs idx qs Map.empty = Inr idfs"
          and sc: "score_candidates idx tp idfs qs (set_iter L (candidates L idx qs)) [] = Inr scored"
          by (auto simp: score_documents_def bind_r_Inr)
        note I = compute_idfs_Inr [OF ci]
        have all: "\<forall>t\<in>set qs. \<exists>ps v. get_postings L idx t = Inr ps \<and> map_of tp t = Some ps
             \<and> compute_idf idx t = Inr v \<and> idfs t = Some v"
          using posts I by blast
        from score_candidates_eq [OF all] sc
        have "scored = map (result_for L idx qs) (filter (has_url idx) (set_iter L (candidates L idx qs)))"
          by simp
        with rs have "rs = slice_to k (ranked L idx qs)" by (simp add: ranked_def)
        moreover have "\<forall>t\<in>set qs. \<exists>ps. get_postings L idx t = Inr ps \<and> ps \<noteq> []"
          using posts by blast
        moreover have "\<forall>t\<in>set qs. \<exists>v. compute_idf idx t = Inr v" using I by blast
        ultimately show ?thesis using False by (simp add: qs_def)
      qed
    qed
  qed
qed

lemma sum_list_by_count:
  fixes f :: "'a \<Rightarrow> real"
  shows "sum_list (map f xs) = (\<Sum>x\<in>set xs. real (count_list xs x) * f x)"
proof (induction xs)
  case Nil
  show ?case by simp
next
  case (Cons y ys)
  let ?g = "\<lambda>x. real (count_list ys x) * f x"
  have away: "(\<Sum>x\<in>set ys - {y}. real (count_list (y # ys) x) * f x) = sum ?g (set ys - {y})"
    by (rule sum.cong) auto
  have rest: "?g y + sum ?g (set ys - {y}) = sum ?g (set ys)"
  proof (cases "y \<in> set ys")
    case True
    then show ?thesis by (simp add: sum.remove [of "set ys" y])
  next
    case False
    then have "count_list ys y = 0" by (simp add: count_list_0_iff)
    with False show ?thesis by simp
  qed
  have "(\<Sum>x\<in>set (y # ys). real (count_list (y # ys) x) * f x)
          = real (count_list (y # ys) y) * f y
            + (\<Sum>x\<in>set ys - {y}. real (count_list (y # ys) x) * f x)"
    by (simp add: sum.insert_remove)
  also have "\<dots> = f y + (?g y + sum ?g (set ys - {y}))"
    unfolding away by (simp add: algebra_simps)
  also have "\<dots> = f y + sum ?g (set ys)"
    unfolding rest ..
  finally show ?case using Cons.IH by simp
qed

lemma ranked_set:
  "set (ranked L idx qs) =
     result_for L idx qs ` {d \<in> set (set_iter L (candidates L idx qs)). has_url idx d}"
  by (simp add: ranked_def)

lemma ranked_result:
  "r \<in> set (slice_to k (ranked L idx qs)) \<Longrightarrow> \<exists>d. has_url idx d \<and> r = result_for L idx qs d"
proof -
  assume "r \<in> set (slice_to k (ranked L idx qs))"
  then have "r \<in> set (ranked L idx qs)"
    using slice_to_subset [of k "ranked L idx qs"] by (rule_tac subsetD)
  then show ?thesis by (auto simp: ranked_set)
qed

lemma term_docs_finite: "finite (term_docs L idx t)"
  by (simp add: term_docs_def posting_docs_def split: sum.splits)

lemma candidates_finite: "qs \<noteq> [] \<Longrightarrow> finite (candidates L idx qs)"
proof -
  assume "qs \<noteq> []"
  then obtain t where "t \<in> set qs" by (cases qs) auto
  then have "candidates L idx qs \<subseteq> term_docs L idx t" by (auto simp: candidates_def)
  then show ?thesis by (rule finite_subset) (rule term_docs_finite)
qed

lemma search_result_form:
  "search L idx q k = Inr rs \<Longrightarrow> r \<in> set rs \<Longrightarrow>
     \<exists>d. has_url idx d \<and> r = result_for L idx (parse_query L q) d"
proof -
  assume a: "search L idx q k = Inr rs" and r: "r \<in> set rs"
  from search_cases [OF a] r have "r \<in> set (slice_to k (ranked L idx (parse_query L q)))"
    by auto
  then show ?thesis by (rule ranked_result)
qed

lemma search_top_k:
  "search L idx q k = Inr rs \<Longrightarrow>
     sorted_wrt (\<lambda>a b. score b \<le> score a) rs \<and> (0 \<le> k \<longrightarrow> length rs \<le> nat k)"
proof -
  assume a: "search L idx q k = Inr rs"
  from search_cases [OF a]
  have "rs = [] \<or> rs = slice_to k (ranked L idx (parse_query L q))" by blast
  then show ?thesis
  proof
    assume "rs = []" then show ?thesis by simp
  next
    assume "rs = slice_to k (ranked L idx (parse_query L q))"
    then show ?thesis
      by (simp add: slice_to_length slice_to_sorted ranked_def sort_by_score_sorted)
  qed
qed

lemma ranked_doc_ids:
  assumes "iterates L" "qs \<noteq> []"
  shows "doc_id_r ` set (ranked L idx qs) = {d \<in> candidates L idx qs. has_url idx d}"
proof -
  have "set (set_iter L (candidates L idx qs)) = candidates L idx qs"
    using assms candidates_finite [of qs L idx] by (simp add: iterates_def)
  then have "set (ranked L idx qs) = result_for L idx qs ` {d \<in> candidates L idx qs. has_url idx d}"
    by (simp add: ranked_set)
  moreover have "doc_id_r (result_for L idx qs d) = d" for d
    by (simp add: result_for_def)
  ultimately show ?thesis by (simp add: image_image)
qed

lemma ranked_length:
  assumes "iterates L" "qs \<noteq> []"
  shows "length (ranked L idx qs) \<le> card (candidates L idx qs)"
proof -
  have "distinct (set_iter L (candidates L idx qs))"
    and "set (set_iter L (candidates L idx qs)) = candidates L idx qs"
    using assms candidates_finite [of qs L idx] by (simp_all add: iterates_def)
  then have "length (set_iter L (candidates L idx qs)) = card (candidates L idx qs)"
    using distinct_card [of "set_iter L (candidates L idx qs)"] by simp
  moreover have "length (ranked L idx qs) \<le> length (set_iter L (candidates L idx qs))"
    by (simp add: ranked_def)
  ultimately show ?thesis by simp
qed

lemma search_total:
  assumes posts: "\<forall>t\<in>set (parse_query L q). \<exists>ps. get_postings L idx t = Inr ps"
    and idfs: "\<forall>t\<in>set (parse_query L q). \<exists>v. compute_idf idx t = Inr v"
  shows "\<exists>rs. search L idx q k = Inr rs"
proof -
  define qs where "qs = parse_query L q"
  show ?thesis
  proof (cases "qs = []")
    case True
    then show ?thesis by (simp add: search_def qs_def)
  next
    case ne: False
    show ?thesis
    proof (cases "\<exists>t\<in>set qs. get_postings L idx t = Inr []")
      case True
      with posts have "fetch_postings L idx qs [] = Inr None"
        unfolding qs_def by (intro fetch_postings_empty) auto
      with ne show ?thesis by (simp add: search_def qs_def [symmetric])
    next
      case False
      with posts have all: "\<forall>t\<in>set qs. \<exists>ps. get_postings L idx t = Inr ps \<and> ps \<noteq> []"
        unfolding qs_def by metis
      from fetch_postings_total [OF all] obtain tp where
        f: "fetch_postings L idx qs [] = Inr (Some tp)" by blast
      note F = fetch_postings_Some [OF f]
      have found: "\<forall>t\<in>set qs. \<exists>ps. get_postings L idx t = Inr ps \<and> ps \<noteq> [] \<and> map_of tp t = Some ps"
        using F by blast
      have keys: "set (map fst tp) = set qs" using F by simp
      have "tp \<noteq> []" using keys ne by auto
      moreover have "\<forall>t\<in>set (map fst tp). \<exists>ps. map_of tp t = Some ps \<and> posting_docs ps = term_docs L idx t"
        using found keys by (fastforce simp: term_docs_def)
      ultimately have "boolean_and tp = Inr (\<Inter>t\<in>set (map fst tp). term_docs L idx t)"
        by (rule boolean_and_eq)
      then have ba: "boolean_and tp = Inr (candidates L idx qs)"
        unfolding candidates_def keys .
      from compute_idfs_total [OF idfs [folded qs_def]] obtain m where
        ci: "compute_idfs idx qs Map.empty = Inr m" by blast
      note I = compute_idfs_Inr [OF ci]
      have "\<forall>t\<in>set qs. \<exists>ps v. get_postings L idx t = Inr ps \<and> map_of tp t = Some ps
             \<and> compute_idf idx t = Inr v \<and> m t = Some v"
        using found I by blast
      from score_candidates_eq [OF this]
      have "score_documents L idx (candidates L idx qs) tp qs =
              Inr (map (result_for L idx qs) (filter (has_url idx) (set_iter L (candidates L idx qs))))"
        using ci by (simp add: score_documents_def)
      with f ba ne show ?thesis
        by (simp add: search_def qs_def [symmetric])
    qed
  qed
qed

section \<open>The index a build writes, as the reader sees it\<close>

lemma build_file_url:
  "build_file L b f = Inr b' \<Longrightarrow>
     (case load_document f of None \<Rightarrow> True | Some payload \<Rightarrow> payload ''url'' \<noteq> None)"
  by (auto simp: build_file_def Let_def split: option.splits)

lemma build_files_urls_present:
  "build_files L b files = Inr b' \<Longrightarrow> urls_present files"
proof (induction files arbitrary: b)
  case Nil
  show ?case by (simp add: urls_present_def)
next
  case (Cons f fs)
  from Cons.prems obtain b1 where 1: "build_file L b f = Inr b1"
    and 2: "build_files L b1 fs = Inr b'" by (auto split: sum.splits)
  from build_file_url [OF 1] Cons.IH [OF 2] show ?case by (simp add: urls_present_def)
qed

lemma build_Inr:
  assumes "build L corpus_root = Inr (b, idx)"
  shows "idx = write_files L b"
    and "built L (first_by_url (loaded_docs (iter_corpus_files corpus_root))) b"
proof -
  from assms have bf: "build_files L new_builder (iter_corpus_files corpus_root) = Inr b"
    and idx: "idx = write_files L b"
    by (auto simp: build_def split: sum.splits)
  show "idx = write_files L b" by (rule idx)
  from build_files_correct [OF build_files_urls_present [OF bf], of L] bf
  show "built L (first_by_url (loaded_docs (iter_corpus_files corpus_root))) b" by simp
qed

lemma concat_short:
  "(\<And>x. x \<in> set xs \<Longrightarrow> length (f x) \<le> 1) \<Longrightarrow> length (concat (map f xs)) \<le> length xs"
proof (induction xs)
  case Nil
  show ?case by simp
next
  case (Cons x xs)
  then have "length (f x) \<le> 1" "length (concat (map f xs)) \<le> length xs" by simp_all
  then show ?case by simp
qed

lemma doc_postings_length: "length (doc_postings L docs t) \<le> length docs"
proof -
  have "length (doc_postings L docs t) \<le> length (enumerate 0 docs)"
    unfolding doc_postings_def
    by (rule concat_short) (auto split: option.splits)
  then show ?thesis by simp
qed

lemma write_index_lexicon:
  assumes d: "distinct (map fst acc)"
    and files: "lexicon_jsonl idx = fst (write_index L acc)"
  shows "t \<notin> set (map fst acc) \<Longrightarrow> load_lexicon idx t = None"
    and "t \<in> set (map fst acc) \<Longrightarrow>
           \<exists>e. load_lexicon idx t = Some e \<and> doc_freq e = int (length (postings_of acc t))"
proof -
  let ?ts = "sort (map fst acc)"
  obtain lf pf where w: "write_index L acc = (lf, pf)" by (cases "write_index L acc")
  from write_terms_result [of L acc ?ts "[]" "[]"] w
  have terms: "map term_e lf = ?ts"
    and each: "\<forall>e\<in>set lf. doc_freq e = int (length (postings_of acc (term_e e)))"
    by (auto simp: write_index_def)
  have dist: "distinct (map term_e lf)" using d terms by simp
  have lf: "lexicon_jsonl idx = lf" using files w by simp
  have found: "\<exists>e. load_lexicon idx t = Some e \<and> doc_freq e = int (length (postings_of acc t))"
    if "t \<in> set (map fst acc)"
  proof -
    from that terms have "t \<in> set (map term_e lf)" by simp
    then obtain e where e: "e \<in> set lf" "term_e e = t" by auto
    from load_lexicon_fold(2) [OF e(1) dist] have "load_lexicon idx t = Some e"
      using lf e(2) by (simp add: load_lexicon_def)
    with each e show ?thesis by auto
  qed
  have missing: "load_lexicon idx t = None" if "t \<notin> set (map fst acc)"
  proof -
    from that terms have "t \<notin> term_e ` set lf"
      by (metis set_map set_sort)
    from load_lexicon_fold(1) [OF this] show ?thesis
      using lf by (simp add: load_lexicon_def)
  qed
  show "t \<notin> set (map fst acc) \<Longrightarrow> load_lexicon idx t = None"
    by (rule missing)
  show "t \<in> set (map fst acc) \<Longrightarrow>
           \<exists>e. load_lexicon idx t = Some e \<and> doc_freq e = int (length (postings_of acc t))"
    by (rule found)
qed

lemma built_doc_freq:
  assumes run: "build L corpus_root = Inr (b, idx)"
  shows "get_doc_freq idx t = int (length (postings_of (postings_acc b) t))"
    and "0 \<le> get_doc_freq idx t"
    and "get_doc_freq idx t \<le> get_num_documents idx"
proof -
  let ?docs = "first_by_url (loaded_docs (iter_corpus_files corpus_root))"
  note idx = build_Inr(1) [OF run] and B = build_Inr(2) [OF run]
  have d: "distinct (map fst (postings_acc b))" using B by (simp add: built_def)
  have lf: "lexicon_jsonl idx = fst (write_index L (postings_acc b))"
    by (simp add: idx write_files_fields)
  have keys: "set (map fst (postings_acc b)) = {t. postings_of (postings_acc b) t \<noteq> []}"
    using B by (simp add: built_def)
  show df: "get_doc_freq idx t = int (length (postings_of (postings_acc b) t))"
  proof (cases "t \<in> set (map fst (postings_acc b))")
    case True
    from write_index_lexicon(2) [OF d lf True] show ?thesis
      by (auto simp: get_doc_freq_def)
  next
    case False
    with keys have "postings_of (postings_acc b) t = []" by auto
    moreover from write_index_lexicon(1) [OF d lf False]
    have "load_lexicon idx t = None" .
    ultimately show ?thesis by (simp add: get_doc_freq_def)
  qed
  then show "0 \<le> get_doc_freq idx t" by simp
  have "length (postings_of (postings_acc b) t) \<le> length ?docs"
    using B doc_postings_length [of L ?docs t] by (simp add: built_def)
  moreover have "get_num_documents idx = int (length ?docs)"
    using B by (simp add: get_num_documents_def idx write_files_fields built_def)
  ultimately show "get_doc_freq idx t \<le> get_num_documents idx" using df by simp
qed

lemma built_idf:
  assumes run: "build L corpus_root = Inr (b, idx)"
  shows "compute_idf idx t =
           Inr (if get_doc_freq idx t = 0 then 0
                else ln (real_of_int (get_num_documents idx) / real_of_int (get_doc_freq idx t)))"
proof (cases "get_doc_freq idx t = 0")
  case True
  then show ?thesis by (simp add: compute_idf_def)
next
  case False
  with built_doc_freq(2,3) [OF run, of t]
  have "0 < get_doc_freq idx t" "0 < get_num_documents idx" by linarith+
  then show ?thesis using False by (simp add: compute_idf_def math_log_def Let_def)
qed

lemma doc_postings_ascending: "sorted_wrt (<) (map doc_id (doc_postings L docs t))"
proof (induction docs rule: rev_induct)
  case Nil
  show ?case by (simp add: doc_postings_def)
next
  case (snoc d ds)
  have below: "doc_id p < int (length ds)" if "p \<in> set (doc_postings L ds t)" for p
  proof -
    from doc_postings_member [OF that] obtain i s where "i < length ds" "p = Posting (int i) s"
      by blast
    then show ?thesis by (simp add: Posting_def)
  qed
  show ?case
  proof (cases "map_of (parse L (snd d)) t")
    case None
    with snoc show ?thesis by (simp add: doc_postings_snoc)
  next
    case (Some s)
    with snoc below show ?thesis
      by (auto simp: doc_postings_snoc sorted_wrt_append Posting_def)
  qed
qed

lemma built_postings_sorted:
  assumes "build L corpus_root = Inr (b, idx)"
  shows "sorted_wrt (<) (map doc_id (postings_of (postings_acc b) t))"
    and "sort_key doc_id (postings_of (postings_acc b) t) = postings_of (postings_acc b) t"
proof -
  from build_Inr(2) [OF assms]
  have "postings_of (postings_acc b) t =
          doc_postings L (first_by_url (loaded_docs (iter_corpus_files corpus_root))) t"
    by (simp add: built_def)
  with doc_postings_ascending [of L _ t]
  show asc: "sorted_wrt (<) (map doc_id (postings_of (postings_acc b) t))" by simp
  have "sorted (map doc_id (postings_of (postings_acc b) t))"
    using sorted_wrt_mono_rel [OF _ asc, of "(\<le>)"] by simp
  then show "sort_key doc_id (postings_of (postings_acc b) t) = postings_of (postings_acc b) t"
    by (simp add: sort_key_id_if_sorted)
qed

section \<open>The small instance, evaluated\<close>

lemma lower_json: "lower ''.json'' = ''.json''" "lower ''.JSON'' = ''.json''" "lower ''.txt'' = ''.txt''"
  by code_simp+

lemma demo_files:
  "iter_corpus_files demo_corpus = [file_a, file_b, file_c, file_d, file_e]"
  "iter_corpus_files demo_corpus_relisted = [file_b, file_a, file_c, file_d, file_e]"
  by (simp_all add: iter_corpus_files_def demo_corpus_def demo_corpus_relisted_def
       folder_json_files_def lower_json
       file_a_def file_b_def file_c_def file_d_def file_e_def file_f_def)

lemma demo_parse:
  "parse demo_lib ''cat dog dog'' =
     [(''cat'', \<lparr>weighted_tf_s = 1, raw_tf_s = 1, positions = [1]\<rparr>),
      (''dog'', \<lparr>weighted_tf_s = 2, raw_tf_s = 2, positions = [2, 3]\<rparr>)]"
  "parse demo_lib ''cat bird bird'' =
     [(''cat'', \<lparr>weighted_tf_s = 1, raw_tf_s = 1, positions = [1]\<rparr>),
      (''bird'', \<lparr>weighted_tf_s = 2, raw_tf_s = 2, positions = [2, 3]\<rparr>)]"
  "parse demo_lib ''bird'' = [(''bird'', \<lparr>weighted_tf_s = 1, raw_tf_s = 1, positions = [1]\<rparr>)]"
  by (simp_all add: parse_def demo_lib_def process_text_def process_token_def record_token_def
      TokenStats_def BASE_WEIGHT_def IMPORTANT_WEIGHTS_def)

lemma demo_build_files:
  "build_files demo_lib new_builder (iter_corpus_files demo_corpus) = Inr demo_builder"
  by (simp add: demo_files file_a_def file_b_def file_c_def file_d_def file_e_def
      build_file_def new_builder_def Let_def demo_parse math_log_def power2_eq_square
      Posting_def average_def demo_builder_def cat_postings_def dog_postings_def bird_postings_def
      length_two_terms_def length_one_term_def)

lemma demo_write_files: "write_files demo_lib demo_builder = demo_index"
  by (simp add: write_files_def write_index_def demo_builder_def postings_of_def
       demo_lib_def demo_dumps_def demo_index_def
       cat_postings_def dog_postings_def bird_postings_def postings_data_def posting_data_def)

lemma demo_build: "build demo_lib demo_corpus = Inr (demo_builder, demo_index)"
  by (simp add: build_def demo_build_files demo_write_files)

lemma demo_urls_present: "urls_present (iter_corpus_files demo_corpus)"
  by (simp add: urls_present_def demo_files file_a_def file_b_def file_c_def file_d_def file_e_def)

lemma demo_loaded_urls:
  "map fst (loaded_docs (iter_corpus_files demo_corpus)) = [''u0'', ''u1'', ''u0'', ''u2'']"
  by (simp add: loaded_docs_def payload_doc_def demo_files
        file_a_def file_b_def file_c_def file_d_def file_e_def)

lemma demo_index_fields:
  "lexicon_jsonl demo_index =
        [\<lparr>term_e = ''bird'', doc_freq = 2, offset = 0, length_e = 7\<rparr>,
         \<lparr>term_e = ''cat'', doc_freq = 2, offset = 7, length_e = 6\<rparr>,
         \<lparr>term_e = ''dog'', doc_freq = 1, offset = 13, length_e = 6\<rparr>]"
  "postings_jsonl demo_index = ''[bird]'' @ [CHR 10] @ ''[cat]'' @ [CHR 10] @ ''[dog]'' @ [CHR 10]"
  "doc_lookup_json demo_index = [(0, ''u0''), (1, ''u1''), (2, ''u2'')]"
  "doc_lengths_json demo_index =
        [(0, length_two_terms), (1, length_two_terms), (2, length_one_term)]"
  "num_documents demo_index = 3"
  by (simp_all add: demo_index_def)

lemma demo_urls_lost_fields:
  "lexicon_jsonl demo_index_urls_lost = lexicon_jsonl demo_index"
  "postings_jsonl demo_index_urls_lost = postings_jsonl demo_index"
  "doc_lookup_json demo_index_urls_lost = [(0, ''u0''), (1, [])]"
  "doc_lengths_json demo_index_urls_lost = doc_lengths_json demo_index"
  "num_documents demo_index_urls_lost = 3"
  by (simp_all add: demo_index_urls_lost_def demo_index_fields)

lemma demo_lexicon:
  "load_lexicon demo_index =
     [''bird'' \<mapsto> \<lparr>term_e = ''bird'', doc_freq = 2, offset = 0, length_e = 7\<rparr>,
      ''cat'' \<mapsto> \<lparr>term_e = ''cat'', doc_freq = 2, offset = 7, length_e = 6\<rparr>,
      ''dog'' \<mapsto> \<lparr>term_e = ''dog'', doc_freq = 1, offset = 13, length_e = 6\<rparr>]"
  "load_lexicon demo_index_urls_lost = load_lexicon demo_index"
  by (simp_all add: load_lexicon_def demo_index_fields demo_urls_lost_fields)

lemma demo_get_postings:
  "get_postings demo_lib demo_index ''cat'' = Inr cat_postings"
  "get_postings demo_lib demo_index ''dog'' = Inr dog_postings"
  "get_postings demo_lib demo_index ''bird'' = Inr bird_postings"
  "get_postings demo_lib demo_index ''zebra'' = Inr []"
  "get_postings demo_lib demo_index_urls_lost t = get_postings demo_lib demo_index t"
  by (simp_all add: get_postings_def demo_lexicon demo_index_fields demo_urls_lost_fields
      demo_lib_def rstrip_def demo_loads_def read_postings_data)

lemma demo_idf:
  "compute_idf demo_index ''cat'' = Inr (ln (3 / 2))"
  "compute_idf demo_index ''dog'' = Inr (ln 3)"
  "compute_idf demo_index ''bird'' = Inr (ln (3 / 2))"
  "compute_idf demo_index ''zebra'' = Inr 0"
  "compute_idf demo_index_urls_lost t = compute_idf demo_index t"
  by (simp_all add: compute_idf_def get_doc_freq_def demo_lexicon get_num_documents_def
       demo_index_fields demo_urls_lost_fields math_log_def)

lemma demo_queries:
  "parse_query demo_lib ''cat'' = [''cat'']"
  "parse_query demo_lib ''bird'' = [''bird'']"
  "parse_query demo_lib ''dog dog'' = [''dog'', ''dog'']"
  "parse_query demo_lib ''cat dog'' = [''cat'', ''dog'']"
  "parse_query demo_lib ''cat zebra'' = [''cat'', ''zebra'']"
  by (simp_all add: parse_query_def demo_lib_def)

lemma demo_set_iter: "set_iter demo_lib = sorted_list_of_set"
  by (simp add: demo_lib_def)

lemma demo_iterates: "iterates demo_lib"
  by (simp add: iterates_def demo_set_iter)

lemma demo_doc_length:
  "get_doc_length demo_index 0 = length_two_terms"
  "get_doc_length demo_index 1 = length_two_terms"
  "get_doc_length demo_index 2 = length_one_term"
  "get_doc_length demo_index_urls_lost d = get_doc_length demo_index d"
  by (simp_all add: get_doc_length_def load_doc_lengths_def demo_index_fields demo_urls_lost_fields)

lemma demo_length_positive: "0 < length_two_terms" "0 < length_one_term"
  by (simp_all add: length_two_terms_def length_one_term_def less_max_iff_disj)

lemma demo_url:
  "get_url demo_index 0 = Some ''u0''"
  "get_url demo_index 1 = Some ''u1''"
  "get_url demo_index 2 = Some ''u2''"
  "get_url demo_index_urls_lost 0 = Some ''u0''"
  "get_url demo_index_urls_lost 1 = Some []"
  "get_url demo_index_urls_lost 2 = None"
  by (simp_all add: get_url_def load_doc_lookup_def demo_index_fields demo_urls_lost_fields)

lemmas demo_search_simps =
  search_def demo_queries demo_get_postings boolean_and_def getitem_def
  score_documents_def demo_idf demo_set_iter posting_docs_def
  cat_postings_def dog_postings_def bird_postings_def
  posting_map_def demo_doc_length demo_url sort_by_score_def slice_to_def Let_def
  demo_length_positive

lemma demo_search_cat_dog:
  "search demo_lib demo_index ''cat dog'' 5 =
     Inr [\<lparr>doc_id_r = 0, url = ''u0'',
          score = ln (3 / 2) / sqrt length_two_terms + 2 * ln 3 / sqrt length_two_terms\<rparr>]"
  by (simp add: demo_search_simps)

lemma demo_search_dog_dog:
  "search demo_lib demo_index ''dog dog'' 5 =
     Inr [\<lparr>doc_id_r = 0, url = ''u0'',
          score = 2 * ln 3 / sqrt length_two_terms + 2 * ln 3 / sqrt length_two_terms\<rparr>]"
  by (simp add: demo_search_simps)

lemma demo_search_cat_zebra: "search demo_lib demo_index ''cat zebra'' 5 = Inr []"
  by (simp add: demo_search_simps)

lemma demo_search_urls_lost:
  "search demo_lib demo_index_urls_lost ''cat'' 5 =
     Inr [\<lparr>doc_id_r = 0, url = ''u0'', score = ln (3 / 2) / sqrt length_two_terms\<rparr>]"
  "search demo_lib demo_index_urls_lost ''bird'' 5 = Inr []"
  by (simp_all add: demo_search_simps)

lemma demo_candidates:
  "candidates demo_lib demo_index [''cat''] = {0, 1}"
  "candidates demo_lib demo_index [''cat'', ''dog''] = {0}"
  "candidates demo_lib demo_index_urls_lost [''cat''] = {0, 1}"
  by (auto simp: candidates_def term_docs_def demo_get_postings posting_docs_def
        cat_postings_def dog_postings_def)

lemma demo_has_url:
  "has_url demo_index 0" "has_url demo_index 1"
  by (simp_all add: has_url_def demo_url)

lemma demo_stemming_query:
  "tokenize demo_lib_stemming ''dog dogs'' = [''dog'', ''dogs'']"
  "stem demo_lib_stemming ''dog'' = ''dog''"
  "stem demo_lib_stemming ''dogs'' = ''dog''"
  "parse_query demo_lib_stemming ''dog dogs'' = [''dog'', ''dog'']"
  by (simp_all add: parse_query_def demo_lib_stemming_def demo_lib_def)

lemma demo_stemming_fields:
  "json_loads demo_lib_stemming = json_loads demo_lib"
  "set_iter demo_lib_stemming = sorted_list_of_set"
  by (simp_all add: demo_lib_stemming_def demo_lib_def)

lemma demo_stemming_reads:
  "get_postings demo_lib_stemming idx t = get_postings demo_lib idx t"
  unfolding get_postings_def demo_stemming_fields by (rule refl)

lemma demo_stemming_tf_idf:
  "tf_idf demo_lib_stemming demo_index ''dog'' 0 = 2 * ln 3 / sqrt length_two_terms"
  by (simp add: tf_idf_def demo_stemming_reads demo_get_postings dog_postings_def posting_map_def
        demo_doc_length demo_length_positive demo_idf)

lemma demo_search_dog_dogs:
  "search demo_lib_stemming demo_index ''dog dogs'' 5 =
     Inr [\<lparr>doc_id_r = 0, url = ''u0'',
          score = 2 * ln 3 / sqrt length_two_terms + 2 * ln 3 / sqrt length_two_terms\<rparr>]"
  by (simp add: search_def demo_stemming_query demo_stemming_reads demo_stemming_fields
        demo_get_postings boolean_and_def getitem_def score_documents_def demo_idf posting_docs_def
        dog_postings_def posting_map_def demo_doc_length demo_url sort_by_score_def
        slice_to_def Let_def demo_length_positive)

lemma count_list_map:
  "count_list (map f xs) y = length (filter (\<lambda>x. f x = y) xs)"
  by (induction xs) auto

section \<open>The claims\<close>

subsection \<open>C1: boolean AND\<close>

text \<open>
  Claim C1, as amended.  The claim says that the document ids of the results are the
  intersection of the query terms' posting sets.  The code cuts the ranked list to
  \<^verbatim>\<open>top_k\<close> and leaves out every candidate without a URL, so the ids of the results are
  a subset of the intersection.  What holds, when the loop over a set visits each
  element once: the ids of the results lie among the candidates (the intersection over
  the query terms) that have a non-empty URL; when every query term has postings and
  \<^verbatim>\<open>top_k\<close> is at least the number of candidates, they are exactly those candidates;
  when every term's postings can be read and one term has none, the result is empty;
  a term absent from the lexicon has no postings.
\<close>

theorem search_boolean_and:
  assumes it: "iterates L"
  shows "(search L idx q k = Inr rs \<longrightarrow>
            doc_id_r ` set rs \<subseteq> {d \<in> candidates L idx (parse_query L q). has_url idx d})
       \<and> (search L idx q k = Inr rs
            \<and> (\<forall>t\<in>set (parse_query L q). \<exists>ps. get_postings L idx t = Inr ps \<and> ps \<noteq> [])
            \<and> parse_query L q \<noteq> []
            \<and> int (card (candidates L idx (parse_query L q))) \<le> k \<longrightarrow>
            doc_id_r ` set rs = {d \<in> candidates L idx (parse_query L q). has_url idx d})
       \<and> ((\<forall>t\<in>set (parse_query L q). \<exists>ps. get_postings L idx t = Inr ps)
            \<and> (\<exists>t\<in>set (parse_query L q). get_postings L idx t = Inr []) \<longrightarrow>
            search L idx q k = Inr [])
       \<and> (load_lexicon idx t = None \<longrightarrow> get_postings L idx t = Inr [])"
proof -
  define qs where "qs = parse_query L q"
  have sub: "doc_id_r ` set rs \<subseteq> {d \<in> candidates L idx qs. has_url idx d}"
    if a: "search L idx q k = Inr rs"
  proof -
    from search_cases [OF a]
    have "rs = [] \<or> qs \<noteq> [] \<and> rs = slice_to k (ranked L idx qs)"
      unfolding qs_def by blast
    then show ?thesis
    proof
      assume "rs = []" then show ?thesis by simp
    next
      assume b: "qs \<noteq> [] \<and> rs = slice_to k (ranked L idx qs)"
      then have "set rs \<subseteq> set (ranked L idx qs)"
        using slice_to_subset [of k "ranked L idx qs"] by simp
      then have "doc_id_r ` set rs \<subseteq> doc_id_r ` set (ranked L idx qs)" by (rule image_mono)
      with b ranked_doc_ids [OF it, of qs idx] show ?thesis by simp
    qed
  qed
  have eq: "doc_id_r ` set rs = {d \<in> candidates L idx qs. has_url idx d}"
    if a: "search L idx q k = Inr rs"
      and posts: "\<forall>t\<in>set qs. \<exists>ps. get_postings L idx t = Inr ps \<and> ps \<noteq> []"
      and ne: "qs \<noteq> []"
      and k: "int (card (candidates L idx qs)) \<le> k"
  proof -
    from search_cases [OF a]
    have "rs = [] \<and> (qs = [] \<or> (\<exists>t\<in>set qs. get_postings L idx t = Inr [])
                       \<or> candidates L idx qs = {})
          \<or> rs = slice_to k (ranked L idx qs)"
      unfolding qs_def by blast
    then show ?thesis
    proof
      assume "rs = [] \<and> (qs = [] \<or> (\<exists>t\<in>set qs. get_postings L idx t = Inr [])
                       \<or> candidates L idx qs = {})"
      with ne posts have "rs = []" "candidates L idx qs = {}" by auto
      then show ?thesis by simp
    next
      assume rs: "rs = slice_to k (ranked L idx qs)"
      from ranked_length [OF it ne, of idx] k
      have "int (length (ranked L idx qs)) \<le> k" by simp
      then have "slice_to k (ranked L idx qs) = ranked L idx qs" by (rule slice_to_all)
      with rs ranked_doc_ids [OF it ne, of idx] show ?thesis by simp
    qed
  qed
  have empty: "search L idx q k = Inr []"
    if d: "(\<forall>t\<in>set qs. \<exists>ps. get_postings L idx t = Inr ps)
            \<and> (\<exists>t\<in>set qs. get_postings L idx t = Inr [])"
  proof -
    from d have "qs \<noteq> []" by auto
    moreover from d have "fetch_postings L idx qs [] = Inr None"
      by (intro fetch_postings_empty) auto
    ultimately show ?thesis
      by (simp add: search_def qs_def [symmetric])
  qed
  have absent: "get_postings L idx t = Inr []" if "load_lexicon idx t = None"
    using that by (simp add: get_postings_def)
  from sub eq empty absent show ?thesis unfolding qs_def by blast
qed

theorem search_boolean_and_witness:
  "iterates demo_lib
   \<and> search demo_lib demo_index ''cat dog'' 5 =
       Inr [\<lparr>doc_id_r = 0, url = ''u0'',
            score = ln (3 / 2) / sqrt length_two_terms + 2 * ln 3 / sqrt length_two_terms\<rparr>]
   \<and> {d \<in> candidates demo_lib demo_index (parse_query demo_lib ''cat dog''). has_url demo_index d} = {0}
   \<and> search demo_lib demo_index ''cat zebra'' 5 = Inr []
   \<and> get_postings demo_lib demo_index ''zebra'' = Inr []"
  using search_boolean_and [OF demo_iterates, of demo_index "''cat dog''" 5
      "[\<lparr>doc_id_r = 0, url = ''u0'',
         score = ln (3 / 2) / sqrt length_two_terms + 2 * ln 3 / sqrt length_two_terms\<rparr>]"
      "''zebra''"]
  by (simp add: demo_iterates demo_search_cat_dog demo_search_cat_zebra demo_queries
        demo_get_postings demo_candidates cat_postings_def dog_postings_def)

text \<open>
  The claim as stated fails when more documents match than \<^verbatim>\<open>top_k\<close>: both documents
  0 and 1 hold the only query term, and \<^verbatim>\<open>search("cat", 1)\<close> returns document 0 alone.
\<close>

theorem search_boolean_and_counterexample:
  "parse_query demo_lib ''cat'' = [''cat'']
   \<and> get_postings demo_lib demo_index ''cat'' = Inr cat_postings
   \<and> posting_docs cat_postings = {0, 1}
   \<and> search demo_lib demo_index ''cat'' 1 =
       Inr [\<lparr>doc_id_r = 0, url = ''u0'', score = ln (3 / 2) / sqrt length_two_terms\<rparr>]
   \<and> doc_id_r ` set [\<lparr>doc_id_r = 0, url = ''u0'', score = ln (3 / 2) / sqrt length_two_terms\<rparr>]
       \<noteq> posting_docs cat_postings"
  by (simp add: demo_search_simps)

subsection \<open>C2: the postings round trip\<close>

text \<open>
  Claim C2.  After a build that ran to its end, with \<^verbatim>\<open>json.dumps\<close> and
  \<^verbatim>\<open>json.loads\<close> inverse on the blocks written and the text of a block free of line
  breaks: every entry of the lexicon written is the entry the reader finds for its
  term; the block of the postings file at the entry's offset and of the entry's length
  deserialises to the postings accumulated for the term, sorted by \<^verbatim>\<open>doc_id\<close>, and
  \<^verbatim>\<open>get_postings\<close> returns the same list; the accumulated list is already in that
  order, strictly ascending in \<^verbatim>\<open>doc_id\<close>; and \<^verbatim>\<open>doc_freq\<close> is the number of
  postings.
\<close>

theorem index_round_trip:
  assumes run: "build L corpus_root = Inr (b, idx)"
    and codec: "\<forall>t\<in>set (map fst (postings_acc b)).
                  codec_ok L (postings_data (sort_key doc_id (postings_of (postings_acc b) t)))"
    and e: "e \<in> set (lexicon_jsonl idx)"
  shows "load_lexicon idx (term_e e) = Some e
       \<and> term_e e \<in> set (map fst (postings_acc b))
       \<and> 0 \<le> offset e \<and> 0 \<le> length_e e
       \<and> read_block L idx e = Inr (sort_key doc_id (postings_of (postings_acc b) (term_e e)))
       \<and> get_postings L idx (term_e e) =
           Inr (sort_key doc_id (postings_of (postings_acc b) (term_e e)))
       \<and> sort_key doc_id (postings_of (postings_acc b) (term_e e)) =
           postings_of (postings_acc b) (term_e e)
       \<and> sorted_wrt (<) (map doc_id (postings_of (postings_acc b) (term_e e)))
       \<and> doc_freq e = int (length (postings_of (postings_acc b) (term_e e)))"
proof -
  from run obtain bf: "build_files L new_builder (iter_corpus_files corpus_root) = Inr b"
    and idx: "idx = write_files L b"
    by (auto simp: build_def split: sum.splits)
  have d: "distinct (map fst (postings_acc b))"
    using build_files_distinct [OF bf] by (simp add: new_builder_def)
  obtain lf pf where w: "write_index L (postings_acc b) = (lf, pf)"
    by (cases "write_index L (postings_acc b)")
  have files: "lexicon_jsonl idx = lf" "postings_jsonl idx = pf"
    using idx w by (simp_all add: write_files_fields)
  from e files have e': "e \<in> set lf" by simp
  have key: "term_e e \<in> set (map fst (postings_acc b))"
  proof -
    from write_terms_result [of L "postings_acc b" "sort (map fst (postings_acc b))" "[]" "[]"] w
    have "map term_e lf = sort (map fst (postings_acc b))" by (auto simp: write_index_def)
    moreover from e' have "term_e e \<in> set (map term_e lf)" by simp
    ultimately show ?thesis by simp
  qed
  have c: "codec_ok L (postings_data (sorted_postings (postings_acc b) (term_e e)))"
    unfolding sorted_postings_def by (rule codec [rule_format, OF key])
  from write_index_round_trip [OF d w files e' c]
    built_postings_sorted [OF run, of "term_e e"]
  show ?thesis
    by (simp add: sorted_postings_def)
qed

theorem index_round_trip_witness:
  "build demo_lib demo_corpus = Inr (demo_builder, demo_index)
   \<and> codec_ok demo_lib (postings_data cat_postings)
   \<and> codec_ok demo_lib (postings_data dog_postings)
   \<and> codec_ok demo_lib (postings_data bird_postings)
   \<and> \<lparr>term_e = ''cat'', doc_freq = 2, offset = 7, length_e = 6\<rparr> \<in> set (lexicon_jsonl demo_index)
   \<and> read_block demo_lib demo_index \<lparr>term_e = ''cat'', doc_freq = 2, offset = 7, length_e = 6\<rparr>
       = Inr cat_postings
   \<and> get_postings demo_lib demo_index ''cat'' = Inr cat_postings
   \<and> sorted_wrt (<) (map doc_id cat_postings)"
proof -
  have sorted: "sort_key doc_id cat_postings = cat_postings"
    "sort_key doc_id dog_postings = dog_postings"
    "sort_key doc_id bird_postings = bird_postings"
    by (simp_all add: cat_postings_def dog_postings_def bird_postings_def)
  have ok: "codec_ok demo_lib (postings_data cat_postings)"
    "codec_ok demo_lib (postings_data dog_postings)"
    "codec_ok demo_lib (postings_data bird_postings)"
    by (simp_all add: codec_ok_def demo_lib_def demo_dumps_def demo_loads_def postings_data_def
          posting_data_def cat_postings_def dog_postings_def bird_postings_def)
  have codec: "\<forall>t\<in>set (map fst (postings_acc demo_builder)).
      codec_ok demo_lib (postings_data (sort_key doc_id (postings_of (postings_acc demo_builder) t)))"
    by (simp add: demo_builder_def postings_of_def sorted ok)
  have e: "\<lparr>term_e = ''cat'', doc_freq = 2, offset = 7, length_e = 6\<rparr> \<in> set (lexicon_jsonl demo_index)"
    by (simp add: demo_index_fields)
  have acc: "postings_of (postings_acc demo_builder) ''cat'' = cat_postings"
    by (simp add: demo_builder_def postings_of_def)
  from index_round_trip [OF demo_build codec e] show ?thesis
    by (simp add: demo_build ok e acc sorted)
qed

subsection \<open>C3: the cut to the top results\<close>

text \<open>
  Claim C3 fails on the code for a negative \<^verbatim>\<open>top_k\<close>: the slice
  \<^verbatim>\<open>scored_results[:top_k]\<close> then drops results from the end of the list instead of
  returning none.  Two documents match the query, and \<^verbatim>\<open>search("cat", -1)\<close> returns
  one result, where the claim allows \<open>max (-1) 0 = 0\<close>.
\<close>

theorem search_negative_top_k:
  "search demo_lib demo_index ''cat'' (- 1) =
     Inr [\<lparr>doc_id_r = 0, url = ''u0'', score = ln (3 / 2) / sqrt length_two_terms\<rparr>]"
  by (simp add: demo_search_simps)

subsection \<open>C4: the inverse document frequency\<close>

text \<open>
  Claim C4.  With \<open>N\<close> the document count of the statistics and \<open>df\<close> the document
  frequency of the term: for \<open>df > 0\<close>, \<^verbatim>\<open>compute_idf\<close> is \<^verbatim>\<open>math.log(N / df)\<close>, which
  is \<open>ln (N / df)\<close> when \<open>N\<close> is positive (and the \<^verbatim>\<open>ValueError\<close> of \<^verbatim>\<open>math.log\<close> when
  the statistics give no document); for \<open>df = 0\<close> it is 0.  On the index a build
  writes, \<open>df\<close> lies between 0 and \<open>N\<close>, so \<^verbatim>\<open>compute_idf\<close> returns for every term.
\<close>

theorem compute_idf_correct:
  "(0 < get_doc_freq idx t \<longrightarrow>
      compute_idf idx t =
        math_log (real_of_int (get_num_documents idx) / real_of_int (get_doc_freq idx t)))
   \<and> (0 < get_doc_freq idx t \<and> 0 < get_num_documents idx \<longrightarrow>
      compute_idf idx t =
        Inr (ln (real_of_int (get_num_documents idx) / real_of_int (get_doc_freq idx t))))
   \<and> (get_doc_freq idx t = 0 \<longrightarrow> compute_idf idx t = Inr 0)
   \<and> (build L corpus_root = Inr (b, idx) \<longrightarrow>
        0 \<le> get_doc_freq idx t \<and> get_doc_freq idx t \<le> get_num_documents idx
        \<and> compute_idf idx t =
            Inr (if get_doc_freq idx t = 0 then 0
                 else ln (real_of_int (get_num_documents idx) / real_of_int (get_doc_freq idx t))))"
proof -
  have "0 \<le> get_doc_freq idx t \<and> get_doc_freq idx t \<le> get_num_documents idx
        \<and> compute_idf idx t =
            Inr (if get_doc_freq idx t = 0 then 0
                 else ln (real_of_int (get_num_documents idx) / real_of_int (get_doc_freq idx t)))"
    if "build L corpus_root = Inr (b, idx)"
    using built_doc_freq(2,3) [OF that, of t] built_idf [OF that, of t] by blast
  then show ?thesis by (simp add: compute_idf_def math_log_def Let_def)
qed

theorem compute_idf_correct_witness:
  "build demo_lib demo_corpus = Inr (demo_builder, demo_index)
   \<and> get_doc_freq demo_index ''cat'' = 2 \<and> get_num_documents demo_index = 3
   \<and> compute_idf demo_index ''cat'' = Inr (ln (3 / 2))
   \<and> get_doc_freq demo_index ''zebra'' = 0
   \<and> compute_idf demo_index ''zebra'' = Inr 0"
  using compute_idf_correct [where idx = demo_index and t = "''cat''" and L = demo_lib
      and corpus_root = demo_corpus and b = demo_builder]
    compute_idf_correct [where idx = demo_index and t = "''zebra''" and L = demo_lib
      and corpus_root = demo_corpus and b = demo_builder]
  by (simp add: get_doc_freq_def demo_lexicon get_num_documents_def demo_index_fields
        math_log_def demo_build)

subsection \<open>C5: documents that share a URL\<close>

text \<open>
  Claim C5.  When every file that loads has a URL, the build runs to its end, and:
  \<^verbatim>\<open>doc_lookup\<close> numbers, from 0 and without gaps, the documents kept by "first
  occurrence wins"; every URL of the corpus is in \<^verbatim>\<open>doc_lookup\<close> exactly once; the
  next \<^verbatim>\<open>doc_id\<close> and \<^verbatim>\<open>num_documents\<close> are the number of distinct URLs; and the
  postings are those of the documents kept, so a later document with a URL already
  seen adds nothing.
\<close>

theorem build_skips_duplicate_urls:
  assumes "urls_present (iter_corpus_files corpus_root)"
  shows "\<exists>b idx. build L corpus_root = Inr (b, idx)
     \<and> doc_lookup b =
         zip (doc_ids (first_by_url (loaded_docs (iter_corpus_files corpus_root))))
             (map fst (first_by_url (loaded_docs (iter_corpus_files corpus_root))))
     \<and> doc_lookup_json idx = doc_lookup b
     \<and> distinct (map snd (doc_lookup b))
     \<and> set (map snd (doc_lookup b)) = fst ` set (loaded_docs (iter_corpus_files corpus_root))
     \<and> next_doc_id b = int (card (fst ` set (loaded_docs (iter_corpus_files corpus_root))))
     \<and> num_documents idx = int (card (fst ` set (loaded_docs (iter_corpus_files corpus_root))))
     \<and> (\<forall>t. postings_of (postings_acc b) t =
              doc_postings L (first_by_url (loaded_docs (iter_corpus_files corpus_root))) t)"
proof -
  let ?all = "loaded_docs (iter_corpus_files corpus_root)"
  let ?docs = "first_by_url ?all"
  from build_correct [OF assms, of L] obtain b where
    run: "build L corpus_root = Inr (b, write_files L b)" and B: "built L ?docs b"
    by blast
  have lookup: "doc_lookup b = zip (doc_ids ?docs) (map fst ?docs)"
    using B by (simp add: built_def)
  have urls: "map snd (doc_lookup b) = map fst ?docs"
    by (simp add: lookup)
  have dist: "distinct (map fst ?docs)" by (rule first_by_url_distinct)
  have set: "set (map fst ?docs) = fst ` set ?all" by (simp add: first_by_url_urls)
  have "card (fst ` set ?all) = length (map fst ?docs)"
    using distinct_card [OF dist] set by simp
  then have n: "int (card (fst ` set ?all)) = int (length ?docs)" by simp
  have nd: "next_doc_id b = int (card (fst ` set ?all))"
    using B n by (simp add: built_def)
  have num: "num_documents (write_files L b) = int (card (fst ` set ?all))"
    using n by (simp add: write_files_fields lookup)
  have posts: "\<forall>t. postings_of (postings_acc b) t = doc_postings L ?docs t"
    using B by (simp add: built_def)
  have d2: "distinct (map snd (doc_lookup b))" unfolding urls by (rule dist)
  have s2: "set (map snd (doc_lookup b)) = fst ` set ?all" unfolding urls by (rule set)
  have j: "doc_lookup_json (write_files L b) = doc_lookup b" by (rule write_files_fields)
  show ?thesis
    by (intro exI [of _ b] exI [of _ "write_files L b"] conjI run lookup j d2 s2 nd num posts)
qed

theorem build_skips_duplicate_urls_witness:
  "urls_present (iter_corpus_files demo_corpus)
   \<and> map fst (loaded_docs (iter_corpus_files demo_corpus)) = [''u0'', ''u1'', ''u0'', ''u2'']
   \<and> (\<exists>b idx. build demo_lib demo_corpus = Inr (b, idx)
         \<and> doc_lookup b = [(0, ''u0''), (1, ''u1''), (2, ''u2'')]
         \<and> distinct (map snd (doc_lookup b))
         \<and> next_doc_id b = 3
         \<and> num_documents idx = 3)"
proof -
  from build_skips_duplicate_urls [OF demo_urls_present, of demo_lib] obtain b idx where
    run: "build demo_lib demo_corpus = Inr (b, idx)"
    and once: "distinct (map snd (doc_lookup b))"
    and count: "num_documents idx =
                  int (card (fst ` set (loaded_docs (iter_corpus_files demo_corpus))))"
    by blast
  from run have b: "b = demo_builder" and idx: "idx = demo_index"
    by (simp_all add: demo_build)
  have "build demo_lib demo_corpus = Inr (b, idx)
         \<and> doc_lookup b = [(0, ''u0''), (1, ''u1''), (2, ''u2'')]
         \<and> distinct (map snd (doc_lookup b))
         \<and> next_doc_id b = 3
         \<and> num_documents idx = 3"
    using run once by (simp add: b idx demo_builder_def demo_index_fields)
  then show ?thesis
    using demo_urls_present demo_loaded_urls by blast
qed

subsection \<open>C6: the document length\<close>

text \<open>
  Claim C6.  When every file that loads has a URL, the build runs to its end, and the
  length stored for each document indexed is the sum over the terms of its parse of
  \<open>(1 + ln (1 + weighted_tf))\<^sup>2\<close>, floored at \<open>10\<^sup>-\<^sup>9\<close>; \<^verbatim>\<open>doc_lengths\<close> has the keys
  of \<^verbatim>\<open>doc_lookup\<close>, and each of its values is at least \<open>10\<^sup>-\<^sup>9\<close>, so positive.
\<close>

theorem doc_lengths_formula:
  assumes "urls_present (iter_corpus_files corpus_root)"
  shows "\<exists>b idx. build L corpus_root = Inr (b, idx)
     \<and> doc_lengths b =
         zip (doc_ids (first_by_url (loaded_docs (iter_corpus_files corpus_root))))
             (map (\<lambda>d. doc_length_of (parse L (snd d)))
                  (first_by_url (loaded_docs (iter_corpus_files corpus_root))))
     \<and> doc_lengths_json idx = doc_lengths b
     \<and> map fst (doc_lengths b) = map fst (doc_lookup b)
     \<and> list_all (\<lambda>(d, len). 1 / 10 ^ 9 \<le> len \<and> 0 < len) (doc_lengths b)"
proof -
  let ?docs = "first_by_url (loaded_docs (iter_corpus_files corpus_root))"
  from build_correct [OF assms, of L] obtain b where
    run: "build L corpus_root = Inr (b, write_files L b)" and B: "built L ?docs b"
    by blast
  have lens: "doc_lengths b = zip (doc_ids ?docs) (map (\<lambda>d. doc_length_of (parse L (snd d))) ?docs)"
    using B by (simp add: built_def)
  have keys: "map fst (doc_lengths b) = map fst (doc_lookup b)"
    using B by (simp add: built_def)
  have floor: "1 / 10 ^ 9 \<le> doc_length_of stats \<and> 0 < doc_length_of stats" for stats
  proof -
    have "(1 :: real) / 10 ^ 9 \<le> doc_length_of stats" by (simp add: doc_length_of_def)
    moreover have "(0 :: real) < 1 / 10 ^ 9" by simp
    ultimately show ?thesis by linarith
  qed
  have "list_all (\<lambda>(d, len). 1 / 10 ^ 9 \<le> len \<and> 0 < len) (doc_lengths b)"
    unfolding lens list_all_iff using floor by (auto dest!: set_zip_rightD)
  then show ?thesis
    by (intro exI [of _ b] exI [of _ "write_files L b"] conjI run lens keys
          write_files_fields(2))
qed

theorem doc_lengths_formula_witness:
  "urls_present (iter_corpus_files demo_corpus)
   \<and> (\<exists>b idx. build demo_lib demo_corpus = Inr (b, idx)
         \<and> doc_lengths b = [(0, length_two_terms), (1, length_two_terms), (2, length_one_term)]
         \<and> doc_lengths_json idx = doc_lengths b
         \<and> list_all (\<lambda>(d, len). 1 / 10 ^ 9 \<le> len \<and> 0 < len) (doc_lengths b))"
proof -
  from doc_lengths_formula [OF demo_urls_present, of demo_lib] obtain b idx where
    run: "build demo_lib demo_corpus = Inr (b, idx)"
    and json: "doc_lengths_json idx = doc_lengths b"
    and floor: "list_all (\<lambda>(d, len). 1 / 10 ^ 9 \<le> len \<and> 0 < len) (doc_lengths b)"
    by blast
  from run have b: "b = demo_builder" by (simp add: demo_build)
  then have "doc_lengths b = [(0, length_two_terms), (1, length_two_terms), (2, length_one_term)]"
    by (simp add: demo_builder_def)
  with run json floor demo_urls_present show ?thesis by blast
qed

subsection \<open>C7: the order of the corpus files\<close>

text \<open>
  Claim C7 fails on the code: \<^verbatim>\<open>_iter_corpus_files\<close> sorts the domain folders by name
  but yields the files of a folder in the order \<^verbatim>\<open>iterdir()\<close> lists them, which
  Python leaves arbitrary.  The same folder listed in two orders gives two orders of
  visit and two assignments of \<^verbatim>\<open>doc_id\<close>.
\<close>

theorem build_depends_on_listing_order:
  "iter_corpus_files demo_corpus = [file_a, file_b, file_c, file_d, file_e]
   \<and> iter_corpus_files demo_corpus_relisted = [file_b, file_a, file_c, file_d, file_e]
   \<and> map_sum (\<lambda>e. e) (\<lambda>r. doc_lookup (fst r)) (build demo_lib demo_corpus)
       = Inr [(0, ''u0''), (1, ''u1''), (2, ''u2'')]
   \<and> map_sum (\<lambda>e. e) (\<lambda>r. doc_lookup (fst r)) (build demo_lib demo_corpus_relisted)
       = Inr [(0, ''u1''), (1, ''u0''), (2, ''u2'')]"
proof -
  have "map_sum (\<lambda>e. e) (\<lambda>r. doc_lookup (fst r)) (build demo_lib demo_corpus_relisted)
       = Inr [(0, ''u1''), (1, ''u0''), (2, ''u2'')]"
    by (simp add: build_def demo_files file_a_def file_b_def file_c_def file_d_def file_e_def
          build_file_def new_builder_def Let_def demo_parse math_log_def)
  then show ?thesis by (simp add: demo_files demo_build demo_builder_def)
qed

subsection \<open>C8: the average position\<close>

text \<open>
  Claim C8.  \<^verbatim>\<open>_average\<close> divides the sum of the sequence by its count floored at 1.
  When every file that loads has a URL, the build runs to its end, and every posting
  it accumulates belongs to a document indexed and a term of its parse; the posting's
  \<^verbatim>\<open>avg_position\<close> is \<^verbatim>\<open>_average\<close> of the positions recorded for the term in the
  document, which is their arithmetic mean, and is 1 if that sequence is empty.  The
  parser records a position with every occurrence, so the sequence of a posting is
  never empty.
\<close>

theorem avg_position_mean:
  "average vs = real_of_int (sum_list vs) / real_of_int (max (int (length vs)) 1)
   \<and> (urls_present (iter_corpus_files corpus_root) \<longrightarrow>
        (\<exists>b idx. build L corpus_root = Inr (b, idx)
           \<and> (\<forall>t p. p \<in> set (postings_of (postings_acc b) t) \<longrightarrow>
                (\<exists>i s. i < length (first_by_url (loaded_docs (iter_corpus_files corpus_root)))
                   \<and> map_of (parse L (snd (first_by_url (loaded_docs (iter_corpus_files corpus_root)) ! i))) t
                        = Some s
                   \<and> doc_id p = int i
                   \<and> avg_position p = average (positions s)
                   \<and> avg_position p =
                        real_of_int (sum_list (positions s)) / real (length (positions s))
                   \<and> (positions s = [] \<longrightarrow> avg_position p = 1)
                   \<and> positions s \<noteq> []))))"
proof (intro conjI impI)
  show "average vs = real_of_int (sum_list vs) / real_of_int (max (int (length vs)) 1)"
    by (rule average_eq)
next
  let ?docs = "first_by_url (loaded_docs (iter_corpus_files corpus_root))"
  assume "urls_present (iter_corpus_files corpus_root)"
  from build_correct [OF this, of L] obtain b where
    run: "build L corpus_root = Inr (b, write_files L b)" and B: "built L ?docs b"
    by blast
  have "\<exists>i s. i < length ?docs \<and> map_of (parse L (snd (?docs ! i))) t = Some s
          \<and> doc_id p = int i
          \<and> avg_position p = average (positions s)
          \<and> avg_position p = real_of_int (sum_list (positions s)) / real (length (positions s))
          \<and> (positions s = [] \<longrightarrow> avg_position p = 1)
          \<and> positions s \<noteq> []"
    if "p \<in> set (postings_of (postings_acc b) t)" for t p
  proof -
    from that B have "p \<in> set (doc_postings L ?docs t)" by (simp add: built_def)
    from doc_postings_member [OF this] obtain i s where
      i: "i < length ?docs" and s: "map_of (parse L (snd (?docs ! i))) t = Some s"
      and p: "p = Posting (int i) s" by blast
    from parse_positions [OF s] have ne: "positions s \<noteq> []" by simp
    then have "max (int (length (positions s))) 1 = int (length (positions s))"
      by (cases "positions s") simp_all
    then have "avg_position p = real_of_int (sum_list (positions s)) / real (length (positions s))"
      by (simp add: p Posting_def average_eq)
    moreover have "avg_position p = average (positions s)" "doc_id p = int i"
      by (simp_all add: p Posting_def)
    ultimately show ?thesis using i s ne by blast
  qed
  with run show "\<exists>b idx. build L corpus_root = Inr (b, idx)
           \<and> (\<forall>t p. p \<in> set (postings_of (postings_acc b) t) \<longrightarrow>
                (\<exists>i s. i < length ?docs
                   \<and> map_of (parse L (snd (?docs ! i))) t = Some s
                   \<and> doc_id p = int i
                   \<and> avg_position p = average (positions s)
                   \<and> avg_position p =
                        real_of_int (sum_list (positions s)) / real (length (positions s))
                   \<and> (positions s = [] \<longrightarrow> avg_position p = 1)
                   \<and> positions s \<noteq> []))"
    by blast
qed

theorem avg_position_mean_witness:
  "urls_present (iter_corpus_files demo_corpus)
   \<and> average [2, 3] = 5 / 2
   \<and> (\<exists>b idx. build demo_lib demo_corpus = Inr (b, idx)
         \<and> postings_of (postings_acc b) ''dog'' =
             [\<lparr>doc_id = 0, weighted_tf = 2, raw_tf = 2, avg_position = 5 / 2\<rparr>])"
  using avg_position_mean [of "[2, 3]" demo_corpus demo_lib]
  by (simp add: demo_urls_present demo_build demo_builder_def postings_of_def dog_postings_def)

text \<open>
  Outside the builder, \<^verbatim>\<open>_average\<close> of the empty sequence is 0: the floor is on the
  divisor.  No posting is written from an empty sequence.
\<close>

lemma average_empty: "average [] = 0"
  by (simp add: average_eq)

subsection \<open>C9: a query term that occurs more than once\<close>

text \<open>
  Claim C9.  \<^verbatim>\<open>_parse_query\<close> stems every token of the query and keeps every
  occurrence: the query terms are the stems of the tokens, in order, as many as the
  tokens.  The score of every result is the sum, over the tokens of the query, of the
  tf-idf contribution of the token's stem for the document; so a stemmed term adds its
  contribution once for each token of the query that has this stem, \<open>n\<close> times when
  \<open>n\<close> tokens have it.
\<close>

theorem search_repeated_term:
  "search L idx q k = Inr rs \<Longrightarrow> r \<in> set rs \<Longrightarrow>
     parse_query L q = map (stem L) (tokenize L q)
     \<and> length (parse_query L q) = length (tokenize L q)
     \<and> score r = sum_list (map (\<lambda>token. tf_idf L idx (stem L token) (doc_id_r r)) (tokenize L q))
     \<and> score r = (\<Sum>t\<in>set (map (stem L) (tokenize L q)).
                    real (length (filter (\<lambda>token. stem L token = t) (tokenize L q)))
                    * tf_idf L idx t (doc_id_r r))"
proof -
  assume a: "search L idx q k = Inr rs" and r: "r \<in> set rs"
  have pq: "parse_query L q = map (stem L) (tokenize L q)" by (simp add: parse_query_def)
  from search_result_form [OF a r] obtain d
    where "r = result_for L idx (parse_query L q) d" by blast
  then have sc: "score r = sum_list (map (\<lambda>t. tf_idf L idx t (doc_id_r r)) (parse_query L q))"
    by (simp add: result_for_def)
  then have 1: "score r =
      sum_list (map (\<lambda>token. tf_idf L idx (stem L token) (doc_id_r r)) (tokenize L q))"
    by (simp add: pq comp_def)
  from sc have "score r = (\<Sum>t\<in>set (parse_query L q).
      real (count_list (parse_query L q) t) * tf_idf L idx t (doc_id_r r))"
    by (simp add: sum_list_by_count)
  then have 2: "score r = (\<Sum>t\<in>set (map (stem L) (tokenize L q)).
                    real (length (filter (\<lambda>token. stem L token = t) (tokenize L q)))
                    * tf_idf L idx t (doc_id_r r))"
    unfolding pq count_list_map .
  from pq 1 2 show ?thesis by simp
qed

theorem search_repeated_term_witness:
  "search demo_lib_stemming demo_index ''dog dogs'' 5 =
     Inr [\<lparr>doc_id_r = 0, url = ''u0'',
          score = 2 * ln 3 / sqrt length_two_terms + 2 * ln 3 / sqrt length_two_terms\<rparr>]
   \<and> tokenize demo_lib_stemming ''dog dogs'' = [''dog'', ''dogs'']
   \<and> parse_query demo_lib_stemming ''dog dogs'' = [''dog'', ''dog'']
   \<and> length (filter (\<lambda>token. stem demo_lib_stemming token = ''dog'')
               (tokenize demo_lib_stemming ''dog dogs'')) = 2
   \<and> tf_idf demo_lib_stemming demo_index ''dog'' 0 = 2 * ln 3 / sqrt length_two_terms
   \<and> 2 * ln 3 / sqrt length_two_terms + 2 * ln 3 / sqrt length_two_terms
       = 2 * tf_idf demo_lib_stemming demo_index ''dog'' 0"
  using search_repeated_term [OF demo_search_dog_dogs, of
      "\<lparr>doc_id_r = 0, url = ''u0'',
        score = 2 * ln 3 / sqrt length_two_terms + 2 * ln 3 / sqrt length_two_terms\<rparr>"]
  by (simp add: demo_search_dog_dogs demo_stemming_query demo_stemming_tf_idf)

subsection \<open>C10: candidates without a URL\<close>

text \<open>
  Claim C10.  Every result of a search has a URL that is not empty, the one
  \<^verbatim>\<open>doc_lookup\<close> has for its document; a document that \<^verbatim>\<open>doc_lookup\<close> maps to no URL
  or to the empty string is in no result.  The omission is silent: a search whose
  terms' postings can be read and whose inverse document frequencies can be computed
  returns, whatever \<^verbatim>\<open>doc_lookup\<close> holds.
\<close>

theorem search_omits_missing_url:
  "(search L idx q k = Inr rs \<longrightarrow>
      (\<forall>r\<in>set rs. url r \<noteq> [] \<and> get_url idx (doc_id_r r) = Some (url r))
      \<and> (\<forall>d. get_url idx d = None \<or> get_url idx d = Some [] \<longrightarrow> d \<notin> doc_id_r ` set rs))
   \<and> ((\<forall>t\<in>set (parse_query L q). \<exists>ps. get_postings L idx t = Inr ps)
        \<and> (\<forall>t\<in>set (parse_query L q). \<exists>v. compute_idf idx t = Inr v) \<longrightarrow>
      (\<exists>rs'. search L idx q k = Inr rs'))"
proof (intro conjI impI)
  assume a: "search L idx q k = Inr rs"
  have each: "url r \<noteq> [] \<and> get_url idx (doc_id_r r) = Some (url r)" if "r \<in> set rs" for r
  proof -
    from search_result_form [OF a that] obtain d
      where "has_url idx d" "r = result_for L idx (parse_query L q) d" by blast
    then show ?thesis
      by (cases "get_url idx d") (simp_all add: has_url_def result_for_def)
  qed
  then show "\<forall>r\<in>set rs. url r \<noteq> [] \<and> get_url idx (doc_id_r r) = Some (url r)" by blast
  have "d \<notin> doc_id_r ` set rs" if "get_url idx d = None \<or> get_url idx d = Some []" for d
  proof
    assume "d \<in> doc_id_r ` set rs"
    then obtain r where "r \<in> set rs" "d = doc_id_r r" by blast
    with each [of r] that show False by auto
  qed
  then show "\<forall>d. get_url idx d = None \<or> get_url idx d = Some [] \<longrightarrow> d \<notin> doc_id_r ` set rs"
    by blast
next
  assume "(\<forall>t\<in>set (parse_query L q). \<exists>ps. get_postings L idx t = Inr ps)
        \<and> (\<forall>t\<in>set (parse_query L q). \<exists>v. compute_idf idx t = Inr v)"
  then show "\<exists>rs'. search L idx q k = Inr rs'"
    using search_total [of L q idx k] by blast
qed

theorem search_omits_missing_url_witness:
  "search demo_lib demo_index_urls_lost ''cat'' 5 =
     Inr [\<lparr>doc_id_r = 0, url = ''u0'', score = ln (3 / 2) / sqrt length_two_terms\<rparr>]
   \<and> candidates demo_lib demo_index_urls_lost [''cat''] = {0, 1}
   \<and> get_url demo_index_urls_lost 0 = Some ''u0''
   \<and> get_url demo_index_urls_lost 1 = Some []
   \<and> 1 \<notin> doc_id_r ` set [\<lparr>doc_id_r = 0, url = ''u0'', score = ln (3 / 2) / sqrt length_two_terms\<rparr>]"
  using search_omits_missing_url [of demo_lib demo_index_urls_lost "''cat''" 5
      "[\<lparr>doc_id_r = 0, url = ''u0'', score = ln (3 / 2) / sqrt length_two_terms\<rparr>]"]
  by (simp add: demo_search_urls_lost demo_candidates demo_url)

end
